theory Spec2Isabelle
  imports Complex_Main
begin

section \<open>JavaScript numbers\<close>

text \<open>
  The arithmetic of \<^verbatim>\<open>src/compress.js\<close> is on JavaScript numbers, that is IEEE 754
  binary64. A number is modelled as NaN, one of the two infinities, or a finite real;
  every operation on finite numbers rounds its exact result to binary64 (to nearest,
  ties to even, with gradual underflow, and overflow to an infinity), and every
  operation on a special value and every division by zero follows ECMAScript. The two
  zeros are one value.
\<close>

datatype jsnum = NaN | NegInf | Fin real | PosInf

text \<open>The integer nearest to a real, the even one of the two at a tie.\<close>

definition round_even :: "real \<Rightarrow> int" where
  "round_even y =
     (let f = \<lfloor>y\<rfloor>; d = y - of_int f
      in if d < 1 / 2 then f else if 1 / 2 < d then f + 1 else if even f then f else f + 1)"

text \<open>
  The binary exponent of a positive real, not below that of the subnormal numbers: the
  binary64 numbers between \<open>2 ^ e\<close> and \<open>2 ^ (e + 1)\<close> are the multiples of
  \<open>2 ^ (e - 52)\<close>, and below \<open>2 ^ - 1022\<close> they are the multiples of \<open>2 ^ - 1074\<close>.
\<close>

definition binade :: "real \<Rightarrow> int" where
  "binade a = max \<lfloor>log 2 a\<rfloor> (- 1022)"

text \<open>
  The binary64 value of a real: the nearest multiple of the spacing at its exponent,
  an infinity when that is \<open>2 ^ 1024\<close> or more.
\<close>

definition rnd :: "real \<Rightarrow> jsnum" where
  "rnd x =
     (if x = 0 then Fin 0
      else
        (let a = \<bar>x\<bar>; q = 2 powr of_int (binade a - 52);
             y = of_int (round_even (a / q)) * q
         in if 2 powr 1024 \<le> y then (if 0 < x then PosInf else NegInf)
            else Fin (sgn x * y)))"

text \<open>The relational operator \<^verbatim>\<open>a < b\<close>: false as soon as one side is NaN.\<close>

fun js_lt :: "jsnum \<Rightarrow> jsnum \<Rightarrow> bool" where
  "js_lt NaN b = False"
| "js_lt a NaN = False"
| "js_lt (Fin x) (Fin y) = (x < y)"
| "js_lt a NegInf = False"
| "js_lt NegInf b = True"
| "js_lt PosInf b = False"
| "js_lt (Fin x) PosInf = True"

text \<open>\<^verbatim>\<open>a <= b\<close> and \<^verbatim>\<open>a > b\<close>, used to state properties of the computed numbers.\<close>

definition js_le :: "jsnum \<Rightarrow> jsnum \<Rightarrow> bool" where
  "js_le a b = (a \<noteq> NaN \<and> b \<noteq> NaN \<and> (js_lt a b \<or> a = b))"

definition js_gt :: "jsnum \<Rightarrow> jsnum \<Rightarrow> bool" where
  "js_gt a b = js_lt b a"

text \<open>Strict equality \<^verbatim>\<open>a === b\<close> on numbers: NaN equals nothing.\<close>

definition js_eq :: "jsnum \<Rightarrow> jsnum \<Rightarrow> bool" where
  "js_eq a b = (a \<noteq> NaN \<and> b \<noteq> NaN \<and> a = b)"

text \<open>\<^verbatim>\<open>a / b\<close>: the quotient of two finite numbers is rounded.\<close>

fun js_div :: "jsnum \<Rightarrow> jsnum \<Rightarrow> jsnum" where
  "js_div NaN b = NaN"
| "js_div a NaN = NaN"
| "js_div (Fin x) (Fin y) =
     (if y \<noteq> 0 then rnd (x / y)
      else if 0 < x then PosInf else if x < 0 then NegInf else NaN)"
| "js_div (Fin x) b = Fin 0"
| "js_div PosInf (Fin y) = (if y < 0 then NegInf else PosInf)"
| "js_div NegInf (Fin y) = (if y < 0 then PosInf else NegInf)"
| "js_div a b = NaN"

text \<open>\<^verbatim>\<open>a * b\<close>: the product of two finite numbers is rounded.\<close>

fun js_mul :: "jsnum \<Rightarrow> jsnum \<Rightarrow> jsnum" where
  "js_mul NaN b = NaN"
| "js_mul a NaN = NaN"
| "js_mul (Fin x) (Fin y) = rnd (x * y)"
| "js_mul (Fin x) PosInf = (if x = 0 then NaN else if 0 < x then PosInf else NegInf)"
| "js_mul (Fin x) NegInf = (if x = 0 then NaN else if 0 < x then NegInf else PosInf)"
| "js_mul PosInf (Fin y) = (if y = 0 then NaN else if 0 < y then PosInf else NegInf)"
| "js_mul NegInf (Fin y) = (if y = 0 then NaN else if 0 < y then NegInf else PosInf)"
| "js_mul PosInf PosInf = PosInf"
| "js_mul NegInf NegInf = PosInf"
| "js_mul a b = NegInf"

text \<open>\<^verbatim>\<open>Math.min\<close>: NaN as soon as one argument is NaN, \<^verbatim>\<open>Infinity\<close> on no argument.\<close>

definition Math_min2 :: "jsnum \<Rightarrow> jsnum \<Rightarrow> jsnum" where
  "Math_min2 a b = (if a = NaN \<or> b = NaN then NaN else if js_lt b a then b else a)"

fun Math_min :: "jsnum list \<Rightarrow> jsnum" where
  "Math_min [] = PosInf"
| "Math_min (x # xs) = Math_min2 x (Math_min xs)"

text \<open>\<^verbatim>\<open>Math.ceil\<close>.\<close>

fun Math_ceil :: "jsnum \<Rightarrow> jsnum" where
  "Math_ceil (Fin x) = Fin (of_int \<lceil>x\<rceil>)"
| "Math_ceil a = a"

text \<open>
  \<^verbatim>\<open>Math.pow(b, e)\<close>, by the cases of ECMAScript's Number::exponentiate. Its last case,
  a finite nonzero base to a finite nonzero exponent, is an approximation that
  ECMAScript leaves to the implementation: it is the parameter \<open>approx\<close> (the
  \<open>mathPow\<close> of the environment below).
\<close>

definition Math_pow :: "(real \<Rightarrow> real \<Rightarrow> jsnum) \<Rightarrow> jsnum \<Rightarrow> jsnum \<Rightarrow> jsnum" where
  "Math_pow approx b e =
     (case e of
        NaN \<Rightarrow> NaN
      | Fin y \<Rightarrow>
          if y = 0 then Fin 1
          else (case b of
                  NaN \<Rightarrow> NaN
                | PosInf \<Rightarrow> if 0 < y then PosInf else Fin 0
                | NegInf \<Rightarrow>
                    if 0 < y then (if of_int \<lfloor>y\<rfloor> = y \<and> odd \<lfloor>y\<rfloor> then NegInf else PosInf)
                    else Fin 0
                | Fin x \<Rightarrow>
                    if x = 0 then (if 0 < y then Fin 0 else PosInf)
                    else if x < 0 \<and> of_int \<lfloor>y\<rfloor> \<noteq> y then NaN
                    else approx x y)
      | PosInf \<Rightarrow>
          (case b of
             NaN \<Rightarrow> NaN
           | Fin x \<Rightarrow> if 1 < \<bar>x\<bar> then PosInf else if \<bar>x\<bar> = 1 then NaN else Fin 0
           | _ \<Rightarrow> PosInf)
      | NegInf \<Rightarrow>
          (case b of
             NaN \<Rightarrow> NaN
           | Fin x \<Rightarrow> if 1 < \<bar>x\<bar> then Fin 0 else if \<bar>x\<bar> = 1 then NaN else PosInf
           | _ \<Rightarrow> Fin 0))"

text \<open>
  \<^verbatim>\<open>x | 0\<close>, that is ToInt32: NaN and the infinities give 0, a finite number is
  truncated towards zero and wrapped into the signed 32-bit range.
\<close>

definition ToInt32 :: "jsnum \<Rightarrow> int" where
  "ToInt32 a =
     (case a of
        Fin x \<Rightarrow>
          (let t = (if x < 0 then \<lceil>x\<rceil> else \<lfloor>x\<rfloor>); m = t mod 2 ^ 32
           in if 2 ^ 31 \<le> m then m - 2 ^ 32 else m)
      | _ \<Rightarrow> 0)"

section \<open>Data\<close>

text \<open>
  A \<^verbatim>\<open>Blob\<close> (a \<^verbatim>\<open>File\<close> is one): its bytes and its \<^verbatim>\<open>type\<close>; \<^verbatim>\<open>size\<close> is the number
  of bytes.
\<close>

record blob =
  bytes :: "nat list"
  btype :: string

definition bsize :: "blob \<Rightarrow> nat" where
  "bsize b = length (bytes b)"

text \<open>A loaded \<^verbatim>\<open>Image\<close> with its \<^verbatim>\<open>width\<close> and \<^verbatim>\<open>height\<close>.\<close>

record image =
  iwidth :: nat
  iheight :: nat

text \<open>
  A canvas element: its identity (a fresh one for every \<^verbatim>\<open>document.createElement\<close>)
  and its \<^verbatim>\<open>width\<close> and \<^verbatim>\<open>height\<close> attributes. What is drawn on it is in the event
  log below.
\<close>

record canvas =
  cref :: nat
  cwidth :: int
  cheight :: int

text \<open>
  Assigning a number to \<^verbatim>\<open>canvas.width\<close> or \<^verbatim>\<open>canvas.height\<close>: the attributes are
  unsigned, and a negative 32-bit integer, out of their range, sets the default (300
  for the width, 150 for the height).
\<close>

definition set_dim :: "int \<Rightarrow> int \<Rightarrow> int" where
  "set_dim d v = (if 0 \<le> v then v else d)"

type_synonym matrix = "jsnum list"

text \<open>
  The calls the code makes on the console, the loader, and the canvases and their 2D
  contexts, in program order. A context is named by its canvas. A call that returns is
  recorded, with its arguments; what it draws is not interpreted. A call that throws
  is not recorded: the exception is the result of the stage.
\<close>

datatype event =
    Warn string
  | LoadImage blob
  | CreateCanvas nat
  | SetWidth nat int
  | SetHeight nat int
  | FillWhite nat int int
  | ClearRect nat int int
  | Transform nat matrix
  | DrawImage nat image
  | DrawScaled nat nat int int int int
  | GetImageData nat int int
  | PutImageData nat
  | ToDataURL nat "string option" jsnum

text \<open>
  What the code takes from outside \<^verbatim>\<open>compress.js\<close>: the image loader behind
  \<^verbatim>\<open>createObjectURL\<close> and \<^verbatim>\<open>new Image\<close> (\<open>None\<close>: \<^verbatim>\<open>onerror\<close> fires), exif-js's
  orientation tag (\<open>None\<close>: undefined), \<^verbatim>\<open>getTransform\<close> of \<^verbatim>\<open>./utils\<close>, the canvas
  encoder \<^verbatim>\<open>toDataURL\<close> (free to depend on everything done so far), \<^verbatim>\<open>atob\<close>
  (\<open>None\<close>: it throws), and the engine's approximation of a power in \<^verbatim>\<open>Math.pow\<close>.
\<close>

record env =
  loadImage :: "blob \<Rightarrow> image option"
  exifOrientation :: "image \<Rightarrow> nat option"
  getTransform :: "image \<Rightarrow> nat \<Rightarrow> nat \<times> nat \<times> matrix"
  toDataURL :: "event list \<Rightarrow> canvas \<Rightarrow> string option \<Rightarrow> jsnum \<Rightarrow> string"
  atob :: "string \<Rightarrow> string option"
  mathPow :: "real \<Rightarrow> real \<Rightarrow> jsnum"

text \<open>The configuration, and the option object the constructor merges over the defaults.\<close>

record config =
  maxWidth :: jsnum
  maxHeight :: jsnum
  quality :: jsnum

record opts =
  optMaxWidth :: "jsnum option"
  optMaxHeight :: "jsnum option"
  optQuality :: "jsnum option"

text \<open>A \<^verbatim>\<open>Compress\<close> instance: \<^verbatim>\<open>this.config\<close> and \<^verbatim>\<open>this.outputType\<close> (\<open>None\<close>: undefined).\<close>

record compress =
  config :: config
  outputType :: "string option"

text \<open>\<^verbatim>\<open>srcDimension\<close> and \<^verbatim>\<open>distDimension\<close>, and the two halves of the resolved value.\<close>

record dimension =
  width :: int
  height :: int

record sized = dimension +
  blob :: blob

record outcome =
  dist :: sized
  source :: sized

text \<open>
  What a promise is rejected with: the \<^verbatim>\<open>Error\<close> of line 37, the string of line 96,
  the \<^verbatim>\<open>TypeError\<close> of a method call on undefined, the exception of \<^verbatim>\<open>atob\<close>, and the
  two exceptions of the canvas API: \<^verbatim>\<open>getImageData\<close> throws an \<^verbatim>\<open>IndexSizeError\<close> when
  the width or the height it is asked for is 0, and \<^verbatim>\<open>drawImage\<close> throws an
  \<^verbatim>\<open>InvalidStateError\<close> when the canvas it is to draw from has a width or a height
  of 0.
\<close>

datatype error =
    Error string
  | Rejected string
  | TypeError
  | InvalidCharacterError
  | IndexSizeError
  | InvalidStateError

section \<open>Constants and the constructor\<close>

definition MIME_PNG :: string where "MIME_PNG = ''image/png''"
definition MIME_JPEG :: string where "MIME_JPEG = ''image/jpeg''"
definition MIME_WEBP :: string where "MIME_WEBP = ''image/webp''"

definition MAX_STEPS :: jsnum where "MAX_STEPS = Fin 4"

text \<open>
  \<^verbatim>\<open>Math.log(2)\<close>: the binary64 number \<^verbatim>\<open>0.6931471805599453\<close>, the nearest to \<open>ln 2\<close>
  (\<open>SCALE_FACTOR_nearest\<close> below).
\<close>

definition SCALE_FACTOR :: jsnum where "SCALE_FACTOR = Fin (6243314768165359 / 2 ^ 53)"

definition SUPPORT_MIME_TYPES :: "string list" where
  "SUPPORT_MIME_TYPES = [MIME_PNG, MIME_JPEG, MIME_WEBP]"
definition DEFAULT_TYPE :: string where "DEFAULT_TYPE = MIME_JPEG"

definition isSupportedType :: "string \<Rightarrow> bool" where
  "isSupportedType t = (t \<in> set SUPPORT_MIME_TYPES)"

text \<open>The constructor; the literal \<^verbatim>\<open>0.92\<close> is the binary64 number nearest to it.\<close>

definition Compress :: "opts \<Rightarrow> compress" where
  "Compress option =
     \<lparr> config =
         \<lparr> maxWidth = (case optMaxWidth option of None \<Rightarrow> Fin 1600 | Some v \<Rightarrow> v),
           maxHeight = (case optMaxHeight option of None \<Rightarrow> Fin 1600 | Some v \<Rightarrow> v),
           quality = (case optQuality option of None \<Rightarrow> rnd (92 / 100) | Some v \<Rightarrow> v) \<rparr>,
       outputType = None \<rparr>"

section \<open>The stages\<close>

text \<open>
  \<^verbatim>\<open>clear(ctx, width, height)\<close>: white for the JPEG output type, transparent otherwise.
  It reads \<^verbatim>\<open>this.outputType\<close>.
\<close>

definition clear :: "compress \<Rightarrow> nat \<Rightarrow> int \<Rightarrow> int \<Rightarrow> event list \<Rightarrow> event list" where
  "clear this ctx w h tr =
     (if outputType this = Some DEFAULT_TYPE then tr @ [FillWhite ctx w h]
      else tr @ [ClearRect ctx w h])"

text \<open>\<^verbatim>\<open>getOriginImage(file)\<close>: resolves with the image or rejects with a string.\<close>

definition getOriginImage :: "env \<Rightarrow> blob \<Rightarrow> event list \<Rightarrow> (error + image) \<times> event list" where
  "getOriginImage e file tr =
     (case loadImage e file of
        Some img \<Rightarrow> (Inr img, tr @ [LoadImage file])
      | None \<Rightarrow> (Inl (Rejected ''image load error''), tr @ [LoadImage file]))"

text \<open>
  Line 105: \<^verbatim>\<open>EXIF.getTag(img, "Orientation") || 1\<close>, the tag, or 1 when it is
  undefined or 0.
\<close>

definition getOrientation :: "env \<Rightarrow> image \<Rightarrow> nat" where
  "getOrientation e img =
     (case exifOrientation e img of
        None \<Rightarrow> 1
      | Some t \<Rightarrow> if t = 0 then 1 else t)"

text \<open>
  \<^verbatim>\<open>getOriginInfo(img)\<close>: the upright canvas of the size \<^verbatim>\<open>getTransform\<close> gives,
  cleared, transformed and drawn.
\<close>

definition getOriginInfo :: "env \<Rightarrow> compress \<Rightarrow> image \<Rightarrow> event list \<Rightarrow> canvas \<times> event list" where
  "getOriginInfo e this img tr =
     (let orientation = getOrientation e img;
          (w, h, m) = getTransform e img orientation;
          cv = \<lparr> cref = 0, cwidth = int w, cheight = int h \<rparr>;
          tr1 = tr @ [CreateCanvas 0, SetWidth 0 (int w), SetHeight 0 (int h)];
          tr2 = clear this 0 (int w) (int h) tr1
      in (cv, tr2 @ [Transform 0 m, DrawImage 0 img]))"

text \<open>
  Line 52: \<^verbatim>\<open>Math.min(1, this.config.maxWidth / canvas.width,
  this.config.maxHeight / canvas.height)\<close>.
\<close>

definition compute_scale :: "config \<Rightarrow> canvas \<Rightarrow> jsnum" where
  "compute_scale cfg cv =
     Math_min [Fin 1,
               js_div (maxWidth cfg) (Fin (of_int (cwidth cv))),
               js_div (maxHeight cfg) (Fin (of_int (cheight cv)))]"

text \<open>Lines 126 and 128: \<^verbatim>\<open>steps\<close> and \<^verbatim>\<open>factor\<close>.\<close>

definition drawImage_steps :: "jsnum \<Rightarrow> jsnum" where
  "drawImage_steps scale =
     Math_min [MAX_STEPS, Math_ceil (js_div (js_div (Fin 1) scale) SCALE_FACTOR)]"

definition drawImage_factor :: "env \<Rightarrow> jsnum \<Rightarrow> jsnum" where
  "drawImage_factor e scale =
     Math_pow (mathPow e) scale (js_div (Fin 1) (drawImage_steps scale))"

lemma js_lt_Math_min2: "js_lt a (Math_min2 b c) \<Longrightarrow> js_lt a b"
  by (cases a; cases b; cases c) (auto simp: Math_min2_def split: if_splits)

lemma js_lt_steps: "js_lt (Fin x) (drawImage_steps scale) \<Longrightarrow> x < 4"
  using js_lt_Math_min2 [of "Fin x" "Fin 4"] by (simp add: drawImage_steps_def MAX_STEPS_def)

text \<open>
  The loop of lines 140 to 177, from the counter \<open>i\<close> and the current \<open>w\<close> and \<open>h\<close>.
  \<open>steps\<close> and \<open>factor\<close> do not change in the loop: they are the two expressions above,
  of \<open>scale\<close>. The two canvases keep the size of the source until the last step sets
  the size of the one returned (lines 169 and 170). The result is the canvas returned
  at the last step, \<open>None\<close> when the loop ends without a return (the function returns
  undefined), or the exception of the canvas call that throws: \<^verbatim>\<open>drawImage\<close> at line
  155 from a canvas with a side of 0, \<^verbatim>\<open>getImageData\<close> at line 166 for a width or a
  height of 0.
\<close>

function drawLoop ::
  "env \<Rightarrow> compress \<Rightarrow> jsnum \<Rightarrow> canvas \<Rightarrow> canvas \<Rightarrow> nat \<Rightarrow> int \<Rightarrow> int \<Rightarrow> event list
     \<Rightarrow> (error + canvas option) \<times> event list" where
  "drawLoop e this scale sourceC mirrorC i w h tr =
     (let steps = drawImage_steps scale; factor = drawImage_factor e scale
      in if js_lt (Fin (of_nat i)) steps then
           (let dw = ToInt32 (js_mul (Fin (of_int w)) factor);
                dh = ToInt32 (js_mul (Fin (of_int h)) factor);
                (src, ctx) = (if i mod 2 = 0 then (sourceC, cref mirrorC)
                              else (mirrorC, cref sourceC));
                tr1 = clear this ctx w h tr
            in if cwidth src = 0 \<or> cheight src = 0 then (Inl InvalidStateError, tr1)
               else
                 (let tr2 = tr1 @ [DrawScaled ctx (cref src) w h dw dh]
                  in if js_eq (Fin (of_nat (i + 1))) steps then
                       (let cv = (if cref src = cref sourceC then mirrorC else sourceC)
                        in if dw = 0 \<or> dh = 0 then (Inl IndexSizeError, tr2)
                           else
                             (Inr (Some (cv\<lparr> cwidth := set_dim 300 dw,
                                              cheight := set_dim 150 dh \<rparr>)),
                              tr2 @ [GetImageData ctx dw dh, SetWidth (cref cv) dw,
                                     SetHeight (cref cv) dh, PutImageData ctx]))
                     else drawLoop e this scale sourceC mirrorC (i + 1) dw dh tr2))
         else (Inr None, tr))"
  by pat_completeness auto
termination
  by (relation "measure (\<lambda>(e, this, scale, sourceC, mirrorC, i, w, h, tr). 4 - i)")
     (auto dest: js_lt_steps)

declare drawLoop.simps [simp del]

text \<open>
  \<^verbatim>\<open>drawImage(source, scale)\<close>: the source itself when \<open>scale\<close> is 1, else the loop over
  the source and a new mirror canvas of the same size.
\<close>

definition drawImage ::
  "env \<Rightarrow> compress \<Rightarrow> canvas \<Rightarrow> jsnum \<Rightarrow> event list \<Rightarrow> (error + canvas option) \<times> event list" where
  "drawImage e this sourceC scale tr =
     (if js_eq scale (Fin 1) then (Inr (Some sourceC), tr)
      else
        (let mirrorC = \<lparr> cref = Suc (cref sourceC), cwidth = cwidth sourceC,
                         cheight = cheight sourceC \<rparr>;
             tr1 = tr @ [CreateCanvas (cref mirrorC), SetWidth (cref mirrorC) (cwidth sourceC),
                         SetHeight (cref mirrorC) (cheight sourceC)]
         in drawLoop e this scale sourceC mirrorC 0 (cwidth sourceC) (cheight sourceC) tr1))"

text \<open>\<^verbatim>\<open>String.prototype.split\<close> on one separator character.\<close>

fun js_split :: "char \<Rightarrow> string \<Rightarrow> string list" where
  "js_split c [] = [[]]"
| "js_split c (x # xs) =
     (if x = c then [] # js_split c xs
      else (case js_split c xs of
              p # ps \<Rightarrow> (x # p) # ps
            | [] \<Rightarrow> [[x]]))"

text \<open>
  \<^verbatim>\<open>dataURLToBlob(dataURL)\<close>: the part after the first comma (the string
  \<^verbatim>\<open>undefined\<close> when there is none), decoded by \<^verbatim>\<open>atob\<close>, as bytes, typed with
  \<^verbatim>\<open>this.outputType\<close>.
\<close>

definition dataURLToBlob :: "env \<Rightarrow> compress \<Rightarrow> string \<Rightarrow> error + blob" where
  "dataURLToBlob e this dataURL =
     (let part = (case js_split CHR '','' dataURL of
                    _ # p # _ \<Rightarrow> p
                  | _ \<Rightarrow> ''undefined'')
      in case atob e part of
           None \<Rightarrow> Inl InvalidCharacterError
         | Some s \<Rightarrow>
             Inr \<lparr> bytes = map of_char s,
                   btype = (case outputType this of None \<Rightarrow> [] | Some t \<Rightarrow> t) \<rparr>)"

text \<open>
  The third callback of \<^verbatim>\<open>process\<close> (lines 55 to 74): encode the result, and keep the
  file and its dimension when the encoded blob is larger than the file.
\<close>

definition process_result ::
  "env \<Rightarrow> compress \<Rightarrow> blob \<Rightarrow> dimension \<Rightarrow> canvas option \<Rightarrow> event list
     \<Rightarrow> (error + outcome) \<times> event list" where
  "process_result e this file srcDimension result tr =
     (case result of
        None \<Rightarrow> (Inl TypeError, tr)
      | Some cv \<Rightarrow>
          (let newImageURL = toDataURL e tr cv (outputType this) (quality (config this));
               tr1 = tr @ [ToDataURL (cref cv) (outputType this) (quality (config this))]
           in case dataURLToBlob e this newImageURL of
                Inl err \<Rightarrow> (Inl err, tr1)
              | Inr distBlob \<Rightarrow>
                  (let distDimension = \<lparr> width = cwidth cv, height = cheight cv \<rparr>;
                       (distBlob, distDimension) =
                         (if bsize distBlob > bsize file then (file, srcDimension)
                          else (distBlob, distDimension))
                   in (Inr \<lparr> dist = \<lparr> width = width distDimension,
                                        height = height distDimension, blob = distBlob \<rparr>,
                             source = \<lparr> width = width srcDimension,
                                          height = height srcDimension, blob = file \<rparr> \<rparr>,
                       tr1))))"

text \<open>\<^verbatim>\<open>file.type.match(/^image/)\<close>.\<close>

definition match_image :: "string \<Rightarrow> bool" where
  "match_image t = (take 5 t = ''image'')"

text \<open>The text of the warning of line 41.\<close>

definition fallback_warning :: "string \<Rightarrow> string" where
  "fallback_warning t =
     ''unsupported MIME type '' @ t @ '', will fallback to default '' @ DEFAULT_TYPE"

text \<open>
  \<^verbatim>\<open>process(file)\<close>, lines 32 to 42: what runs before the promise chain is built. It
  assigns \<^verbatim>\<open>this.outputType\<close>, rejects a type that does not match, and warns and
  falls back to the default type for a type that cannot be encoded.
\<close>

definition process_begin ::
  "compress \<Rightarrow> blob \<Rightarrow> event list \<Rightarrow> (error + unit) \<times> compress \<times> event list" where
  "process_begin this0 file tr0 =
     (let this1 = this0\<lparr> outputType := Some (btype file) \<rparr>
      in if \<not> match_image (btype file) then
           (Inl (Error (''unsupport file type: '' @ btype file)), this1, tr0)
         else if \<not> isSupportedType (btype file) then
           (Inr (), this1\<lparr> outputType := Some DEFAULT_TYPE \<rparr>,
            tr0 @ [Warn (fallback_warning (btype file))])
         else (Inr (), this1, tr0))"

text \<open>
  Lines 44 to 74: the chain of callbacks. Each runs when the one before it has
  resolved, and reads \<^verbatim>\<open>this\<close> as it is by then; no callback assigns a field of
  \<^verbatim>\<open>this\<close>. An exception thrown in \<^verbatim>\<open>drawImage\<close> rejects the promise.
\<close>

definition process_chain ::
  "env \<Rightarrow> compress \<Rightarrow> blob \<Rightarrow> event list \<Rightarrow> (error + outcome) \<times> event list" where
  "process_chain e this file tr =
     (case getOriginImage e file tr of
        (Inl err, tr1) \<Rightarrow> (Inl err, tr1)
      | (Inr img, tr1) \<Rightarrow>
          (let srcDimension = \<lparr> width = int (iwidth img), height = int (iheight img) \<rparr>;
               (cv, tr2) = getOriginInfo e this img tr1;
               scale = compute_scale (config this) cv
           in case drawImage e this cv scale tr2 of
                (Inl err, tr3) \<Rightarrow> (Inl err, tr3)
              | (Inr result, tr3) \<Rightarrow> process_result e this file srcDimension result tr3))"

text \<open>
  \<^verbatim>\<open>process(file)\<close> run on its own: the result of the promise, the instance after the
  call, and the event log.
\<close>

definition process ::
  "env \<Rightarrow> compress \<Rightarrow> blob \<Rightarrow> event list \<Rightarrow> (error + outcome) \<times> compress \<times> event list" where
  "process e this file tr =
     (case process_begin this file tr of
        (Inl err, this1, tr1) \<Rightarrow> (Inl err, this1, tr1)
      | (Inr u, this1, tr1) \<Rightarrow>
          (let (res, tr2) = process_chain e this1 file tr1 in (res, this1, tr2)))"

section \<open>Names for the parts of one loop iteration\<close>

text \<open>
  Used to state what the loop does: the size \<^verbatim>\<open>x * factor | 0\<close> after one step, the
  canvas an iteration draws on and the one it draws from, and the events of one
  iteration.
\<close>

definition step_dim :: "env \<Rightarrow> jsnum \<Rightarrow> int \<Rightarrow> int" where
  "step_dim e scale x = ToInt32 (js_mul (Fin (of_int x)) (drawImage_factor e scale))"

definition step_target :: "canvas \<Rightarrow> canvas \<Rightarrow> nat \<Rightarrow> canvas" where
  "step_target sourceC mirrorC i = (if even i then mirrorC else sourceC)"

definition step_source :: "canvas \<Rightarrow> canvas \<Rightarrow> nat \<Rightarrow> canvas" where
  "step_source sourceC mirrorC i = (if even i then sourceC else mirrorC)"

definition step_events ::
  "env \<Rightarrow> compress \<Rightarrow> jsnum \<Rightarrow> canvas \<Rightarrow> canvas \<Rightarrow> nat \<Rightarrow> int \<Rightarrow> int \<Rightarrow> event list" where
  "step_events e this scale sourceC mirrorC i w h =
     clear this (cref (step_target sourceC mirrorC i)) w h [] @
     [DrawScaled (cref (step_target sourceC mirrorC i))
        (cref (step_source sourceC mirrorC i)) w h (step_dim e scale w) (step_dim e scale h)]"

section \<open>Accuracy of the approximations\<close>

text \<open>
  What is asked of the engine's \<^verbatim>\<open>Math.pow\<close> to bound the error of \<open>factor\<close>: for the
  base \<open>s\<close> and every exponent between a quarter and a half, a finite result within
  a relative \<open>2 ^ - 50\<close> of the real power (at most four units in the last place).
\<close>

definition pow_accurate :: "env \<Rightarrow> real \<Rightarrow> bool" where
  "pow_accurate e s =
     (\<forall>y. 1 / 4 \<le> y \<and> y \<le> 1 / 2 \<longrightarrow>
          (\<exists>f. mathPow e s y = Fin f \<and> \<bar>f - s powr y\<bar> \<le> s powr y / 2 ^ 50))"

text \<open>
  Partial sums of the exponential series with bounds of their last summand, to bound
  \<open>ln 2\<close>.
\<close>

definition exp_lower :: "real \<Rightarrow> nat \<Rightarrow> real \<Rightarrow> real \<Rightarrow> bool" where
  "exp_lower c n a l = (a \<le> (\<Sum>m<n. c ^ m / fact m) \<and> 0 \<le> l \<and> l \<le> c ^ n / fact n)"

definition exp_upper :: "real \<Rightarrow> nat \<Rightarrow> real \<Rightarrow> real \<Rightarrow> bool" where
  "exp_upper c n a h = ((\<Sum>m<n. c ^ m / fact m) \<le> a \<and> c ^ n / fact n \<le> h)"

section \<open>Concrete inputs\<close>

text \<open>
  An environment whose loader gives an 800 by 600 image, whose encoder gives the three
  bytes \<open>ABC\<close> in base64 and whose \<^verbatim>\<open>Math.pow\<close> is the correctly rounded power, and
  files of five and of three bytes.
\<close>

definition ex_image :: image where
  "ex_image = \<lparr> iwidth = 800, iheight = 600 \<rparr>"

definition ex_matrix :: matrix where
  "ex_matrix = [Fin 1, Fin 0, Fin 0, Fin 1, Fin 0, Fin 0]"

definition ex_env :: env where
  "ex_env =
     \<lparr> loadImage = (\<lambda>f. Some ex_image),
       exifOrientation = (\<lambda>img. None),
       getTransform = (\<lambda>img t. (iwidth img, iheight img, ex_matrix)),
       toDataURL = (\<lambda>tr cv t q. ''data:image/png;base64,QUJD''),
       atob = (\<lambda>s. Some ''ABC''),
       mathPow = (\<lambda>x y. rnd (x powr y)) \<rparr>"

text \<open>
  An image of 25600 by 8, scaled by \<open>1 / 16\<close> under the default configuration, an
  environment that loads it, one whose loader fails, and the canvas of that image.
\<close>

definition ex_wide_image :: image where
  "ex_wide_image = \<lparr> iwidth = 25600, iheight = 8 \<rparr>"

definition ex_wide_env :: env where
  "ex_wide_env = ex_env\<lparr> loadImage := (\<lambda>f. Some ex_wide_image) \<rparr>"

definition ex_broken_env :: env where
  "ex_broken_env = ex_env\<lparr> loadImage := (\<lambda>f. None) \<rparr>"

definition ex_wide_canvas :: canvas where
  "ex_wide_canvas = \<lparr> cref = 0, cwidth = 25600, cheight = 8 \<rparr>"

definition ex_this :: compress where
  "ex_this = Compress \<lparr> optMaxWidth = None, optMaxHeight = None, optQuality = None \<rparr>"

definition ex_file :: blob where
  "ex_file = \<lparr> bytes = [1, 2, 3, 4, 5], btype = ''image/png'' \<rparr>"

definition ex_file3 :: blob where
  "ex_file3 = \<lparr> bytes = [1, 2, 3], btype = ''image/png'' \<rparr>"

definition ex_text :: blob where
  "ex_text = \<lparr> bytes = [104, 105], btype = ''text/plain'' \<rparr>"

definition ex_gif :: blob where
  "ex_gif = \<lparr> bytes = [71, 73, 70, 56, 57, 97], btype = ''image/gif'' \<rparr>"

definition ex_candidate :: blob where
  "ex_candidate = \<lparr> bytes = [65, 66, 67], btype = ''image/png'' \<rparr>"

definition ex_canvas :: canvas where
  "ex_canvas = \<lparr> cref = 0, cwidth = 800, cheight = 600 \<rparr>"

definition ex_dimension :: dimension where
  "ex_dimension = \<lparr> width = 800, height = 600 \<rparr>"

text \<open>The scale at which the rounded quotient of line 126 is a whole number.\<close>

definition ex_scale :: real where
  "ex_scale = 3248660424278399 / 2 ^ 52"

lemmas model_defs =
  process_def process_begin_def process_chain_def match_image_def isSupportedType_def
  SUPPORT_MIME_TYPES_def MIME_PNG_def MIME_JPEG_def MIME_WEBP_def getOriginImage_def
  getOriginInfo_def getOrientation_def clear_def DEFAULT_TYPE_def
  drawImage_def js_eq_def process_result_def dataURLToBlob_def bsize_def
  Compress_def

lemmas ex_defs =
  ex_file_def ex_file3_def ex_text_def ex_gif_def ex_env_def ex_image_def
  ex_matrix_def ex_candidate_def ex_canvas_def ex_dimension_def ex_wide_image_def ex_wide_env_def
  ex_broken_env_def ex_wide_canvas_def


section \<open>Rounding to binary64\<close>

lemma round_even_error: "\<bar>of_int (round_even y) - y\<bar> \<le> 1 / 2"
  unfolding round_even_def Let_def by (auto; linarith)

lemma round_even_of_int [simp]: "round_even (of_int m) = m"
  by (simp add: round_even_def)

lemma round_even_ge: "of_int m \<le> y \<Longrightarrow> m \<le> round_even y"
proof -
  assume "of_int m \<le> y"
  then have "m \<le> \<lfloor>y\<rfloor>" by (simp add: le_floor_iff)
  moreover have "\<lfloor>y\<rfloor> \<le> round_even y"
    unfolding round_even_def Let_def by auto
  ultimately show ?thesis by linarith
qed

lemma round_even_le: "y \<le> of_int m \<Longrightarrow> round_even y \<le> m"
proof -
  assume a: "y \<le> of_int m"
  show ?thesis
  proof (cases "y = of_int m")
    case True then show ?thesis by simp
  next
    case False
    then have "y < of_int m" using a by simp
    then have "\<lfloor>y\<rfloor> < m" by (simp add: floor_less_iff)
    then have "\<lfloor>y\<rfloor> + 1 \<le> m" by simp
    moreover have "round_even y \<le> \<lfloor>y\<rfloor> + 1"
      unfolding round_even_def Let_def by auto
    ultimately show ?thesis by linarith
  qed
qed

text \<open>What the definition of \<open>rnd\<close> says of a positive number.\<close>

lemma rnd_pos:
  assumes "0 < a"
  shows "rnd a =
     (if (2::real) powr 1024 \<le> of_int (round_even (a / 2 powr of_int (binade a - 52))) * 2 powr of_int (binade a - 52)
      then PosInf
      else Fin (of_int (round_even (a / 2 powr of_int (binade a - 52))) * 2 powr of_int (binade a - 52)))"
  using assms by (simp add: rnd_def Let_def)

lemma rnd_pos_cases:
  assumes "0 < a"
  shows "rnd a = PosInf \<or> (\<exists>y. rnd a = Fin y \<and> 0 \<le> y \<and> \<bar>y - a\<bar> \<le> 2 powr of_int (binade a - 53))"
proof -
  define q where "q = (2::real) powr of_int (binade a - 52)"
  define K where "K = round_even (a / q)"
  have q: "0 < q" by (simp add: q_def)
  have "0 \<le> a / q" using assms q by simp
  then have K0: "0 \<le> K" unfolding K_def using round_even_ge [of 0 "a / q"] by simp
  have "\<bar>of_int K - a / q\<bar> \<le> 1 / 2" unfolding K_def by (rule round_even_error)
  then have "\<bar>of_int K - a / q\<bar> * q \<le> (1 / 2) * q" using q by (intro mult_right_mono) simp_all
  moreover have "\<bar>of_int K - a / q\<bar> * q = \<bar>of_int K * q - a\<bar>"
  proof -
    have "\<bar>of_int K - a / q\<bar> * q = \<bar>(of_int K - a / q) * q\<bar>"
      using q by (simp add: abs_mult)
    also have "(of_int K - a / q) * q = of_int K * q - a"
      using q by (simp add: field_simps)
    finally show ?thesis .
  qed
  moreover have "(1 / 2) * q = 2 powr of_int (binade a - 53)"
    by (simp add: q_def powr_diff)
  ultimately have err: "\<bar>of_int K * q - a\<bar> \<le> 2 powr of_int (binade a - 53)" by simp
  have "0 \<le> of_int K * q" using K0 q by simp
  then show ?thesis
    using err rnd_pos [OF assms] unfolding q_def [symmetric] K_def [symmetric] by auto
qed

lemma binade_ge:
  assumes "0 < a"
  shows "2 powr of_int (binade a) \<le> a \<or> binade a = - 1022"
proof -
  have "2 powr of_int \<lfloor>log 2 a\<rfloor> \<le> a"
    using floor_log_eq_powr_iff [of a 2 "\<lfloor>log 2 a\<rfloor>"] assms by simp
  then show ?thesis by (auto simp: binade_def max_def)
qed

lemma floor_log2_ge:
  assumes "2 powr of_int k \<le> a"
  shows "k \<le> \<lfloor>log 2 a\<rfloor>"
proof -
  have a: "0 < a" using assms by (smt (verit) powr_gt_zero)
  have "of_int k \<le> log 2 a" using assms a by (simp add: le_log_iff)
  then show ?thesis by (simp add: le_floor_iff)
qed

lemma floor_log2_less:
  assumes "0 < a" "a < 2 powr of_int k"
  shows "\<lfloor>log 2 a\<rfloor> < k"
proof -
  have "log 2 a < of_int k" using assms by (simp add: log_less_iff)
  then show ?thesis by (simp add: floor_less_iff)
qed

lemma rnd_ge_pow2:
  assumes "2 powr of_int k \<le> a" "- 1022 \<le> k"
  shows "rnd a = PosInf \<or> (\<exists>y. rnd a = Fin y \<and> 2 powr of_int k \<le> y)"
proof -
  have a: "0 < a" using assms(1) by (smt (verit) powr_gt_zero)
  define E where "E = \<lfloor>log 2 a\<rfloor>"
  have kE: "k \<le> E" unfolding E_def by (rule floor_log2_ge [OF assms(1)])
  then have "- 1022 \<le> E" using assms(2) by linarith
  then have b: "binade a = E" unfolding binade_def E_def [symmetric] by (rule max_absorb1)
  define q where "q = (2::real) powr of_int (E - 52)"
  have q: "0 < q" by (simp add: q_def)
  have lo: "2 powr of_int E \<le> a"
    using floor_log_eq_powr_iff [of a 2 E] a by (simp add: E_def)
  have "2 powr of_int E / q = 2 powr 52" by (simp add: q_def powr_diff [symmetric])
  also have "\<dots> = of_int (2 ^ 52)" by (simp add: powr_numeral)
  finally have "of_int (2 ^ 52) \<le> a / q" using lo q by (metis divide_right_mono less_eq_real_def)
  then have "2 ^ 52 \<le> round_even (a / q)" by (rule round_even_ge)
  then have "of_int (2 ^ 52) * q \<le> of_int (round_even (a / q)) * q"
    using q by (intro mult_right_mono) simp_all
  moreover have "of_int (2 ^ 52) * q = 2 powr of_int E"
  proof -
    have "q = 2 powr of_int E / 2 powr 52" by (simp add: q_def powr_diff)
    then show ?thesis by (simp add: powr_numeral)
  qed
  moreover have "2 powr of_int k \<le> (2::real) powr of_int E" using kE by simp
  ultimately have "2 powr of_int k \<le> of_int (round_even (a / q)) * q" by linarith
  then show ?thesis
    using rnd_pos [OF a] unfolding b q_def [symmetric] by auto
qed

lemma rnd_rel_error:
  assumes "(2::real) powr (- 1022) \<le> a"
  shows "rnd a = PosInf \<or> (\<exists>y. rnd a = Fin y \<and> \<bar>y - a\<bar> \<le> a / 2 ^ 53)"
proof -
  have a: "0 < a" using assms by (smt (verit) powr_gt_zero)
  have "2 powr of_int (- 1022) \<le> a" using assms by simp
  then have "- 1022 \<le> \<lfloor>log 2 a\<rfloor>" by (rule floor_log2_ge)
  then have b: "binade a = \<lfloor>log 2 a\<rfloor>" unfolding binade_def by (rule max_absorb1)
  have lo: "2 powr of_int (binade a) \<le> a"
    unfolding b using floor_log_eq_powr_iff [of a 2 "\<lfloor>log 2 a\<rfloor>"] a by simp
  have "(2::real) powr of_int (binade a - 53) = 2 powr of_int (binade a) / 2 powr 53"
    by (simp add: powr_diff)
  also have "\<dots> = 2 powr of_int (binade a) / 2 ^ 53" by (simp add: powr_numeral)
  also have "\<dots> \<le> a / 2 ^ 53" using lo by (simp add: divide_right_mono)
  finally have "2 powr of_int (binade a - 53) \<le> a / 2 ^ 53" .
  then show ?thesis using rnd_pos_cases [OF a] by (smt (verit))
qed

lemma rnd_finite:
  assumes "0 < a" "a < (2::real) powr 1023"
  shows "\<exists>y. rnd a = Fin y"
proof -
  have "a < 2 powr of_int 1023" using assms(2) by simp
  then have "\<lfloor>log 2 a\<rfloor> < 1023" by (rule floor_log2_less [OF assms(1)])
  then have b: "binade a \<le> 1022" by (simp add: binade_def)
  define q where "q = (2::real) powr of_int (binade a - 52)"
  define K where "K = round_even (a / q)"
  have q: "0 < q" by (simp add: q_def)
  have "\<bar>of_int K - a / q\<bar> \<le> 1 / 2" unfolding K_def by (rule round_even_error)
  then have "of_int K \<le> a / q + 1 / 2" by linarith
  then have "of_int K * q \<le> (a / q + 1 / 2) * q" using q by (intro mult_right_mono) simp_all
  also have "\<dots> = a + q / 2" using q by (simp add: algebra_simps)
  also have "q / 2 \<le> 2 powr 1023"
  proof -
    have "q \<le> 2 powr of_int (1022 - 52)" unfolding q_def using b by (intro powr_mono) simp_all
    also have "\<dots> \<le> 2 powr 1023" by (rule powr_mono) simp_all
    finally have "q \<le> 2 powr 1023" .
    moreover have "q / 2 \<le> q" using q by simp
    ultimately show ?thesis by linarith
  qed
  finally have "of_int K * q < 2 powr 1023 + 2 powr 1023" using assms(2) by linarith
  also have "\<dots> = 2 powr 1024"
    using powr_add [of 2 1023 1] by simp
  finally show ?thesis
    using rnd_pos [OF assms(1)] unfolding q_def [symmetric] K_def [symmetric] by simp
qed

lemma rnd_exact:
  assumes m: "0 < m" "m < 2 ^ 53" and j: "- 1074 \<le> j"
    and x: "x = of_int m * 2 powr of_int j" "x < (2::real) powr 1024"
  shows "rnd x = Fin x"
proof -
  have pos: "0 < x" using m(1) by (simp add: x(1))
  define b where "b = binade x"
  have d: "0 \<le> j - b + 52"
  proof (cases "b = - 1022")
    case True then show ?thesis using j by simp
  next
    case False
    then have "2 powr of_int b \<le> x" using binade_ge [OF pos] by (simp add: b_def)
    also have "x < 2 ^ 53 * 2 powr of_int j"
      unfolding x(1) using m(2) by (intro mult_strict_right_mono) (simp_all flip: of_int_less_iff)
    also have "\<dots> = 2 powr of_int (53 + j)" by (simp add: powr_add powr_numeral)
    finally have "b < 53 + j" by simp
    then show ?thesis by simp
  qed
  define q where "q = (2::real) powr of_int (b - 52)"
  have q: "0 < q" by (simp add: q_def)
  have "x / q = of_int m * 2 powr of_int (j - b + 52)"
    by (simp add: x(1) q_def powr_diff powr_add field_simps)
  also have "2 powr of_int (j - b + 52) = (2::real) ^ nat (j - b + 52)"
    using d by (simp add: powr_realpow [symmetric] del: of_int_add of_int_diff)
  finally have r: "x / q = of_int (m * 2 ^ nat (j - b + 52))" by simp
  have "of_int (round_even (x / q)) * q = x"
    unfolding r round_even_of_int using r q by (simp add: field_simps)
  then show ?thesis
    using rnd_pos [OF pos] x(2) unfolding b_def [symmetric] q_def [symmetric] by simp
qed

lemma rnd_of_int: "0 < m \<Longrightarrow> m < 2 ^ 53 \<Longrightarrow> rnd (of_int m) = Fin (of_int m)"
proof -
  assume m: "0 < m" "m < 2 ^ 53"
  have "(of_int m :: real) < 2 ^ 53" using m(2) by (simp flip: of_int_less_iff)
  also have "\<dots> < 2 powr 1024" by (simp add: powr_numeral)
  finally show ?thesis using rnd_exact [OF m, of 0 "of_int m"] by simp
qed

lemma rnd_dyadic:
  "0 < m \<Longrightarrow> m < 2 ^ 53 \<Longrightarrow> k \<le> 1074 \<Longrightarrow> rnd (of_int m / 2 ^ k) = Fin (of_int m / 2 ^ k)"
proof -
  assume m: "0 < m" "m < 2 ^ 53" and k: "k \<le> 1074"
  have e: "(of_int m :: real) / 2 ^ k = of_int m * 2 powr of_int (- int k)"
    by (simp add: powr_minus powr_realpow field_simps)
  have "of_int m / 2 ^ k \<le> (of_int m :: real)" using m(1) by (simp add: field_simps)
  also have "\<dots> < 2 ^ 53" using m(2) by (simp flip: of_int_less_iff)
  also have "\<dots> < 2 powr 1024" by (simp add: powr_numeral)
  finally show ?thesis using rnd_exact [OF m _ e] k by simp
qed


lemma round_even_near:
  assumes "\<bar>y - of_int K\<bar> < 1 / 2"
  shows "round_even y = K"
proof (cases "of_int K \<le> y")
  case True
  then have "\<lfloor>y\<rfloor> = K" using assms by (intro floor_unique) linarith+
  then show ?thesis using assms True by (simp add: round_even_def Let_def)
next
  case False
  then have "\<lfloor>y\<rfloor> = K - 1" using assms by (intro floor_unique) (simp, linarith+)
  then show ?thesis using assms False by (simp add: round_even_def Let_def)
qed

lemma binade_eq:
  assumes "2 powr of_int E \<le> a" "a < 2 powr of_int (E + 1)" "- 1022 \<le> E"
  shows "binade a = E"
proof -
  have a: "0 < a" using assms(1) by (smt (verit) powr_gt_zero)
  have "\<lfloor>log 2 a\<rfloor> = E"
    using floor_log_eq_powr_iff [of a 2 E] a assms(1,2) by simp
  then show ?thesis using assms(3) by (simp add: binade_def)
qed

lemma rnd_near:
  assumes "2 powr of_int E \<le> a" "a < 2 powr of_int (E + 1)" "- 1022 \<le> E"
    and "\<bar>a / 2 powr of_int (E - 52) - of_int K\<bar> < 1 / 2"
    and "of_int K * 2 powr of_int (E - 52) < (2::real) powr 1024"
  shows "rnd a = Fin (of_int K * 2 powr of_int (E - 52))"
proof -
  have a: "0 < a" using assms(1) by (smt (verit) powr_gt_zero)
  have b: "binade a = E" by (rule binade_eq [OF assms(1-3)])
  have r: "round_even (a / 2 powr of_int (E - 52)) = K" by (rule round_even_near [OF assms(4)])
  show ?thesis using rnd_pos [OF a] assms(5) unfolding b r by simp
qed

lemma rnd_numeral: "numeral k < (2::int) ^ 53 \<Longrightarrow> rnd (numeral k) = Fin (numeral k)"
  using rnd_of_int [of "numeral k"] by simp

lemma rnd_one: "rnd 1 = Fin 1"
  using rnd_of_int [of 1] by simp

lemma rnd_fractions:
  "rnd (1 / 2) = Fin (1 / 2)" "rnd (1 / 4) = Fin (1 / 4)" "rnd (1 / 16) = Fin (1 / 16)"
  using rnd_dyadic [of 1 1] rnd_dyadic [of 1 2] rnd_dyadic [of 1 4] by simp_all

lemma rnd_zero: "rnd 0 = Fin 0"
  by (simp add: rnd_def)

section \<open>The logarithm of 2\<close>

lemma summand_Suc: "c ^ Suc n / fact (Suc n) = (c ^ n / fact n) * (c / (1 + real n))" for c :: real
  by (simp add: field_simps)

lemma exp_lower_step:
  assumes "exp_lower c n a l" "c0 \<le> c" "0 \<le> c0" "a' \<le> a + l" "0 \<le> l'"
    and "l' * (1 + real n) \<le> l * c0" and "k = Suc n"
  shows "exp_lower c k a' l'"
proof -
  have l: "a \<le> (\<Sum>m<n. c ^ m / fact m)" "0 \<le> l" "l \<le> c ^ n / fact n"
    using assms(1) by (simp_all add: exp_lower_def)
  have "l' \<le> l * c0 / (1 + real n)" using assms(6) by (simp add: pos_le_divide_eq)
  also have "\<dots> = l * (c0 / (1 + real n))" by simp
  also have "\<dots> \<le> (c ^ n / fact n) * (c / (1 + real n))"
    using l(2,3) assms(2,3) by (intro mult_mono divide_right_mono) simp_all
  finally have "l' \<le> c ^ Suc n / fact (Suc n)" by (simp only: summand_Suc)
  moreover have "a' \<le> (\<Sum>m<Suc n. c ^ m / fact m)" using l(1,3) assms(4) by simp
  ultimately have "exp_lower c (Suc n) a' l'" using assms(5) unfolding exp_lower_def by blast
  then show ?thesis by (simp only: assms(7))
qed

lemma exp_upper_step:
  assumes "exp_upper c n a h" "0 \<le> c" "c \<le> c1" "a + h \<le> a'"
    and "h * c1 \<le> h' * (1 + real n)" and "k = Suc n"
  shows "exp_upper c k a' h'"
proof -
  have h: "(\<Sum>m<n. c ^ m / fact m) \<le> a" "c ^ n / fact n \<le> h"
    using assms(1) by (simp_all add: exp_upper_def)
  have t0: "0 \<le> c ^ n / fact n" using assms(2) by simp
  have h0: "0 \<le> h" using h(2) t0 by linarith
  have "(c ^ n / fact n) * (c / (1 + real n)) \<le> h * (c1 / (1 + real n))"
    using h(2) t0 h0 assms(2,3) by (intro mult_mono divide_right_mono) simp_all
  also have "\<dots> = h * c1 / (1 + real n)" by simp
  also have "\<dots> \<le> h'" using assms(5) by (simp add: pos_divide_le_eq)
  finally have "c ^ Suc n / fact (Suc n) \<le> h'" by (simp only: summand_Suc)
  moreover have "(\<Sum>m<Suc n. c ^ m / fact m) \<le> a'" using h assms(4) by simp
  ultimately have "exp_upper c (Suc n) a' h'" unfolding exp_upper_def by blast
  then show ?thesis by (simp only: assms(6))
qed

lemma exp_lower_bound:
  fixes c :: real
  assumes "exp_lower c n a l" "0 \<le> c"
  shows "a \<le> exp c"
proof -
  obtain t where t: "exp c = (\<Sum>m<n. c ^ m / fact m) + (exp t / fact n) * c ^ n"
    using Maclaurin_exp_le [of c n] by blast
  have "0 \<le> (exp t / fact n) * c ^ n" using assms(2) by simp
  then show ?thesis using t assms(1) by (simp add: exp_lower_def)
qed

lemma exp_upper_bound:
  fixes c :: real
  assumes "exp_upper c n a h" "0 \<le> c" "c \<le> 1"
  shows "exp c \<le> a + 3 * h"
proof -
  obtain t where t: "\<bar>t\<bar> \<le> \<bar>c\<bar>" "exp c = (\<Sum>m<n. c ^ m / fact m) + (exp t / fact n) * c ^ n"
    using Maclaurin_exp_le [of c n] by blast
  have "t \<le> 1" using t(1) assms(2,3) by linarith
  then have "exp t \<le> exp 1" by simp
  then have e: "exp t \<le> 3" using exp_le by linarith
  have t0: "0 \<le> c ^ n / fact n" using assms(2) by simp
  have "(exp t / fact n) * c ^ n = exp t * (c ^ n / fact n)" by simp
  also have "\<dots> \<le> 3 * h"
    using e t0 assms(1) by (intro mult_mono) (simp_all add: exp_upper_def)
  finally show ?thesis using t(2) assms(1) by (simp add: exp_upper_def)
qed

lemma ln2_upper: "ln (2::real) < 2 ^ 51 / 3248660424278399"
proof -
  define c :: real where "c = 2 ^ 51 / 3248660424278399"
  have c: "6931471805599453191969 / 10 ^ 22 \<le> c" "(0::real) \<le> 6931471805599453191969 / 10 ^ 22" by (simp_all add: c_def)
  have e0: "exp_lower c 0 0 1" by (simp add: exp_lower_def)
  have e1: "exp_lower c 1 (1) (6931471805599453191969 / 10 ^ 22)"
    by (rule exp_lower_step [OF e0 c]) simp_all
  have e2: "exp_lower c 2 (16931471805599453191969 / 10 ^ 22) (2402265069591007191123 / 10 ^ 22)"
    by (rule exp_lower_step [OF e1 c]) simp_all
  have e3: "exp_lower c 3 (19333736875190460383092 / 10 ^ 22) (555041086648215823024 / 10 ^ 22)"
    by (rule exp_lower_step [OF e2 c]) simp_all
  have e4: "exp_lower c 4 (19888777961838676206116 / 10 ^ 22) (96181291076284777047 / 10 ^ 22)"
    by (rule exp_lower_step [OF e3 c]) simp_all
  have e5: "exp_lower c 5 (19984959252914960983163 / 10 ^ 22) (13333558146428444363 / 10 ^ 22)"
    by (rule exp_lower_step [OF e4 c]) simp_all
  have e6: "exp_lower c 6 (19998292811061389427526 / 10 ^ 22) (1540353039338161125 / 10 ^ 22)"
    by (rule exp_lower_step [OF e5 c]) simp_all
  have e7: "exp_lower c 7 (19999833164100727588651 / 10 ^ 22) (152527338040598417 / 10 ^ 22)"
    by (rule exp_lower_step [OF e6 c]) simp_all
  have e8: "exp_lower c 8 (19999985691438768187068 / 10 ^ 22) (13215486790144310 / 10 ^ 22)"
    by (rule exp_lower_step [OF e7 c]) simp_all
  have e9: "exp_lower c 9 (19999998906925558331378 / 10 ^ 22) (1017808600923970 / 10 ^ 22)"
    by (rule exp_lower_step [OF e8 c]) simp_all
  have e10: "exp_lower c 10 (19999999924734159255348 / 10 ^ 22) (70549116208011 / 10 ^ 22)"
    by (rule exp_lower_step [OF e9 c]) simp_all
  have e11: "exp_lower c 11 (19999999995283275463359 / 10 ^ 22) (4445538271870 / 10 ^ 22)"
    by (rule exp_lower_step [OF e10 c]) simp_all
  have e12: "exp_lower c 12 (19999999999728813735229 / 10 ^ 22) (256784359934 / 10 ^ 22)"
    by (rule exp_lower_step [OF e11 c]) simp_all
  have e13: "exp_lower c 13 (19999999999985598095163 / 10 ^ 22) (13691488853 / 10 ^ 22)"
    by (rule exp_lower_step [OF e12 c]) simp_all
  have e14: "exp_lower c 14 (19999999999999289584016 / 10 ^ 22) (677872635 / 10 ^ 22)"
    by (rule exp_lower_step [OF e13 c]) simp_all
  have e15: "exp_lower c 15 (19999999999999967456651 / 10 ^ 22) (31324367 / 10 ^ 22)"
    by (rule exp_lower_step [OF e14 c]) simp_all
  have e16: "exp_lower c 16 (19999999999999998781018 / 10 ^ 22) (1357024 / 10 ^ 22)"
    by (rule exp_lower_step [OF e15 c]) simp_all
  have e17: "exp_lower c 17 (20000000000000000138042 / 10 ^ 22) (55330 / 10 ^ 22)"
    by (rule exp_lower_step [OF e16 c]) simp_all
  have "(2::real) < 20000000000000000138042 / 10 ^ 22" by simp
  also have "\<dots> \<le> exp c" by (rule exp_lower_bound [OF e17]) (simp add: c_def)
  finally have "ln 2 < ln (exp c)" by (subst ln_less_cancel_iff) simp_all
  then show ?thesis by (simp add: c_def)
qed

lemma ln2_lower: "6243314768165359 / 2 ^ 53 < ln (2::real)"
proof -
  define c :: real where "c = 6243314768165359 / 2 ^ 53"
  have c: "0 \<le> c" "c \<le> 6931471805599452862268 / 10 ^ 22" by (simp_all add: c_def)
  have e0: "exp_upper c 0 0 1" by (simp add: exp_upper_def)
  have e1: "exp_upper c 1 (1) (6931471805599452862268 / 10 ^ 22)"
    by (rule exp_upper_step [OF e0 c]) simp_all
  have e2: "exp_upper c 2 (16931471805599452862268 / 10 ^ 22) (2402265069591006962592 / 10 ^ 22)"
    by (rule exp_upper_step [OF e1 c]) simp_all
  have e3: "exp_upper c 3 (19333736875190459824860 / 10 ^ 22) (555041086648215743822 / 10 ^ 22)"
    by (rule exp_upper_step [OF e2 c]) simp_all
  have e4: "exp_upper c 4 (19888777961838675568682 / 10 ^ 22) (96181291076284758749 / 10 ^ 22)"
    by (rule exp_upper_step [OF e3 c]) simp_all
  have e5: "exp_upper c 5 (19984959252914960327431 / 10 ^ 22) (13333558146428441194 / 10 ^ 22)"
    by (rule exp_upper_step [OF e4 c]) simp_all
  have e6: "exp_upper c 6 (19998292811061388768625 / 10 ^ 22) (1540353039338160687 / 10 ^ 22)"
    by (rule exp_upper_step [OF e5 c]) simp_all
  have e7: "exp_upper c 7 (19999833164100726929312 / 10 ^ 22) (152527338040598368 / 10 ^ 22)"
    by (rule exp_upper_step [OF e6 c]) simp_all
  have e8: "exp_upper c 8 (19999985691438767527680 / 10 ^ 22) (13215486790144307 / 10 ^ 22)"
    by (rule exp_upper_step [OF e7 c]) simp_all
  have e9: "exp_upper c 9 (19999998906925557671987 / 10 ^ 22) (1017808600923970 / 10 ^ 22)"
    by (rule exp_upper_step [OF e8 c]) simp_all
  have e10: "exp_upper c 10 (19999999924734158595957 / 10 ^ 22) (70549116208012 / 10 ^ 22)"
    by (rule exp_upper_step [OF e9 c]) simp_all
  have e11: "exp_upper c 11 (19999999995283274803969 / 10 ^ 22) (4445538271871 / 10 ^ 22)"
    by (rule exp_upper_step [OF e10 c]) simp_all
  have e12: "exp_upper c 12 (19999999999728813075840 / 10 ^ 22) (256784359935 / 10 ^ 22)"
    by (rule exp_upper_step [OF e11 c]) simp_all
  have e13: "exp_upper c 13 (19999999999985597435775 / 10 ^ 22) (13691488854 / 10 ^ 22)"
    by (rule exp_upper_step [OF e12 c]) simp_all
  have e14: "exp_upper c 14 (19999999999999288924629 / 10 ^ 22) (677872636 / 10 ^ 22)"
    by (rule exp_upper_step [OF e13 c]) simp_all
  have e15: "exp_upper c 15 (19999999999999966797265 / 10 ^ 22) (31324368 / 10 ^ 22)"
    by (rule exp_upper_step [OF e14 c]) simp_all
  have e16: "exp_upper c 16 (19999999999999998121633 / 10 ^ 22) (1357025 / 10 ^ 22)"
    by (rule exp_upper_step [OF e15 c]) simp_all
  have e17: "exp_upper c 17 (19999999999999999478658 / 10 ^ 22) (55331 / 10 ^ 22)"
    by (rule exp_upper_step [OF e16 c]) simp_all
  have "exp c \<le> 19999999999999999478658 / 10 ^ 22 + 3 * (55331 / 10 ^ 22)" by (rule exp_upper_bound [OF e17 c(1)]) (simp add: c_def)
  also have "\<dots> < 2" by simp
  finally have "ln (exp c) < ln 2" by (subst ln_less_cancel_iff) simp_all
  then show ?thesis by (simp add: c_def)
qed


text \<open>
  \<open>SCALE_FACTOR\<close> is the binary64 number nearest to \<open>ln 2\<close>: it is within half the
  spacing \<open>2 ^ - 53\<close> of the binary64 numbers between a half and 1.
\<close>

lemma SCALE_FACTOR_nearest:
  "SCALE_FACTOR = Fin (6243314768165359 / 2 ^ 53)"
  "6243314768165359 / 2 ^ 53 < ln (2::real)"
  "ln (2::real) - 6243314768165359 / 2 ^ 53 < 1 / 2 ^ 54"
proof -
  show "SCALE_FACTOR = Fin (6243314768165359 / 2 ^ 53)" by (simp add: SCALE_FACTOR_def)
  show "6243314768165359 / 2 ^ 53 < ln (2::real)" by (rule ln2_lower)
  have "(2 ^ 51 / 3248660424278399 :: real) - 6243314768165359 / 2 ^ 53 < 1 / 2 ^ 54" by simp
  then show "ln (2::real) - 6243314768165359 / 2 ^ 53 < 1 / 2 ^ 54" using ln2_upper by linarith
qed


section \<open>The scale\<close>

lemma compute_scale_le_1: "\<not> js_gt (compute_scale cfg cv) (Fin 1)"
proof -
  have "\<not> js_lt (Fin 1) (Math_min2 (Fin 1) x)" for x
    by (cases x) (simp_all add: Math_min2_def)
  then show ?thesis by (simp add: compute_scale_def js_gt_def)
qed

lemma js_div_fits:
  assumes "0 < x" "js_le (Fin x) m"
  shows "\<not> js_lt (js_div m (Fin x)) (Fin 1) \<and> js_div m (Fin x) \<noteq> NaN"
proof (cases m)
  case (Fin mw)
  then have "x \<le> mw" using assms(2) by (auto simp: js_le_def)
  then have "1 \<le> mw / x" using assms(1) by simp
  then have "2 powr of_int 0 \<le> mw / x" by simp
  from rnd_ge_pow2 [OF this] have "rnd (mw / x) = PosInf \<or> (\<exists>y. rnd (mw / x) = Fin y \<and> 1 \<le> y)"
    by simp
  then show ?thesis using Fin assms(1) by auto
qed (use assms in \<open>auto simp: js_le_def\<close>)

lemma compute_scale_fitting:
  assumes "0 < cwidth cv" "0 < cheight cv"
    and "js_le (Fin (of_int (cwidth cv))) (maxWidth cfg)"
    and "js_le (Fin (of_int (cheight cv))) (maxHeight cfg)"
  shows "compute_scale cfg cv = Fin 1"
proof -
  have w: "\<not> js_lt (js_div (maxWidth cfg) (Fin (of_int (cwidth cv)))) (Fin 1)"
      "js_div (maxWidth cfg) (Fin (of_int (cwidth cv))) \<noteq> NaN"
    using js_div_fits [OF _ assms(3)] assms(1) by simp_all
  have h: "\<not> js_lt (js_div (maxHeight cfg) (Fin (of_int (cheight cv)))) (Fin 1)"
      "js_div (maxHeight cfg) (Fin (of_int (cheight cv))) \<noteq> NaN"
    using js_div_fits [OF _ assms(4)] assms(2) by simp_all
  show ?thesis
    using w h
    by (cases "js_div (maxWidth cfg) (Fin (of_int (cwidth cv)))";
        cases "js_div (maxHeight cfg) (Fin (of_int (cheight cv)))")
       (auto simp: compute_scale_def Math_min2_def)
qed

text \<open>The default configuration, and the scales of the two example canvases under it.\<close>

lemma ex_config:
  "maxWidth (config ex_this) = Fin 1600" "maxHeight (config ex_this) = Fin 1600"
  "outputType ex_this = None"
  by (simp_all add: ex_this_def Compress_def)

lemma ex_scale_fits:
  "compute_scale (config ex_this) \<lparr> cref = 0, cwidth = 800, cheight = 600 \<rparr> = Fin 1"
  by (rule compute_scale_fitting) (simp_all add: ex_config js_le_def)

lemma ex_scale_wide:
  "compute_scale (config ex_this) \<lparr> cref = 0, cwidth = 25600, cheight = 8 \<rparr> = Fin (1 / 16)"
  by (simp add: compute_scale_def ex_config rnd_fractions rnd_numeral Math_min2_def)

section \<open>The size guard\<close>

lemma process_result_size:
  assumes "process_result e this file srcDimension result tr = (Inr out, tr')"
  shows "bsize (blob (dist out)) \<le> bsize (blob (source out))"
  using assms
  by (auto simp: process_result_def Let_def split: option.splits sum.splits if_splits)

lemma process_chain_size:
  assumes "process_chain e this file tr = (Inr out, tr')"
  shows "bsize (blob (dist out)) \<le> bsize (blob (source out))"
  using assms
  by (auto simp: process_chain_def Let_def split: prod.splits sum.splits
           dest: process_result_size)

text \<open>
  C1. Whenever \<open>process\<close> resolves, the blob of \<open>dist\<close> is no larger than the blob of
  \<open>source\<close>, for every environment, instance, file and event log.
\<close>

theorem process_dist_size_le_source:
  assumes "process e this file tr = (Inr out, this', tr')"
  shows "bsize (blob (dist out)) \<le> bsize (blob (source out))"
  using assms
  by (auto simp: process_def Let_def split: prod.splits sum.splits
           dest: process_chain_size)

theorem process_dist_size_le_source_witness:
  "process ex_env ex_this ex_file [] =
     (Inr \<lparr> dist = \<lparr> width = 800, height = 600, blob = ex_candidate \<rparr>,
            source = \<lparr> width = 800, height = 600, blob = ex_file \<rparr> \<rparr>,
      ex_this\<lparr> outputType := Some ''image/png'' \<rparr>,
      [LoadImage ex_file, CreateCanvas 0, SetWidth 0 800, SetHeight 0 600,
       ClearRect 0 800 600, Transform 0 ex_matrix, DrawImage 0 ex_image,
       ToDataURL 0 (Some ''image/png'') (quality (config ex_this))])
   \<and> bsize ex_candidate \<le> bsize ex_file"
proof -
  have run: "process ex_env ex_this ex_file [] =
     (Inr \<lparr> dist = \<lparr> width = 800, height = 600, blob = ex_candidate \<rparr>,
            source = \<lparr> width = 800, height = 600, blob = ex_file \<rparr> \<rparr>,
      ex_this\<lparr> outputType := Some ''image/png'' \<rparr>,
      [LoadImage ex_file, CreateCanvas 0, SetWidth 0 800, SetHeight 0 600,
       ClearRect 0 800 600, Transform 0 ex_matrix, DrawImage 0 ex_image,
       ToDataURL 0 (Some ''image/png'') (quality (config ex_this))])"
    by (simp add: model_defs ex_defs ex_scale_fits Let_def)
  from process_dist_size_le_source [OF run] show ?thesis
    using run by simp
qed

text \<open>
  C2. When the encoded candidate decodes to a blob, the third stage of \<open>process\<close>
  resolves, and its \<open>dist\<close> is the file with the dimension of the decoded image if the
  candidate has more bytes than the file, and the candidate with the dimension of the
  encoded canvas otherwise: blob and dimension are always taken from the same side.
\<close>

theorem process_result_size_guard:
  assumes "dataURLToBlob e this
             (toDataURL e tr cv (outputType this) (quality (config this))) = Inr cand"
  shows "fst (process_result e this file srcDimension (Some cv) tr) =
           Inr \<lparr> dist =
                   (if bsize cand > bsize file
                    then \<lparr> width = width srcDimension, height = height srcDimension,
                           blob = file \<rparr>
                    else \<lparr> width = cwidth cv, height = cheight cv, blob = cand \<rparr>),
                 source = \<lparr> width = width srcDimension, height = height srcDimension,
                            blob = file \<rparr> \<rparr>"
  using assms by (simp add: process_result_def Let_def)

theorem process_result_size_guard_witness:
  "dataURLToBlob ex_env (ex_this\<lparr> outputType := Some ''image/png'' \<rparr>)
     ''data:image/png;base64,QUJD'' = Inr ex_candidate
   \<and> fst (process_result ex_env (ex_this\<lparr> outputType := Some ''image/png'' \<rparr>) ex_file
            ex_dimension (Some ex_canvas) []) =
       Inr \<lparr> dist = \<lparr> width = 800, height = 600, blob = ex_candidate \<rparr>,
             source = \<lparr> width = 800, height = 600, blob = ex_file \<rparr> \<rparr>"
proof -
  have cand: "dataURLToBlob ex_env (ex_this\<lparr> outputType := Some ''image/png'' \<rparr>)
      (toDataURL ex_env [] ex_canvas (outputType (ex_this\<lparr> outputType := Some ''image/png'' \<rparr>))
         (quality (config (ex_this\<lparr> outputType := Some ''image/png'' \<rparr>)))) = Inr ex_candidate"
    by (simp add: dataURLToBlob_def ex_defs)
  from process_result_size_guard [OF cand, of ex_file ex_dimension] cand show ?thesis
    by (simp add: ex_defs bsize_def)
qed

text \<open>
  C7, as the code has it. When the candidate has more bytes than the file, \<open>dist\<close> is
  \<open>source\<close>; when it has as many bytes or fewer, \<open>dist\<close> is the candidate with the
  dimension of the encoded canvas.
\<close>

theorem process_result_keeps_source_when_larger:
  assumes "dataURLToBlob e this
             (toDataURL e tr cv (outputType this) (quality (config this))) = Inr cand"
  shows "\<exists>out. fst (process_result e this file srcDimension (Some cv) tr) = Inr out
           \<and> (if bsize file < bsize cand then dist out = source out
              else dist out = \<lparr> width = cwidth cv, height = cheight cv, blob = cand \<rparr>)"
  using assms by (simp add: process_result_def Let_def)

theorem process_result_keeps_source_when_larger_witness:
  "\<exists>out. fst (process_result ex_env (ex_this\<lparr> outputType := Some ''image/png'' \<rparr>) ex_text
                 ex_dimension (Some ex_canvas) []) = Inr out
         \<and> dist out = source out"
proof -
  have cand: "dataURLToBlob ex_env (ex_this\<lparr> outputType := Some ''image/png'' \<rparr>)
      (toDataURL ex_env [] ex_canvas (outputType (ex_this\<lparr> outputType := Some ''image/png'' \<rparr>))
         (quality (config (ex_this\<lparr> outputType := Some ''image/png'' \<rparr>)))) = Inr ex_candidate"
    by (simp add: dataURLToBlob_def ex_defs)
  from process_result_keeps_source_when_larger [OF cand, of ex_text ex_dimension]
  show ?thesis by (simp add: ex_defs bsize_def)
qed

text \<open>
  C7 as stated fails: a candidate of exactly the size of the file is returned, not the
  file. The encoder gives three bytes for a file of three other bytes.
\<close>

theorem equal_size_candidate_is_kept:
  "bsize ex_candidate = bsize ex_file3
   \<and> fst (process ex_env ex_this ex_file3 []) =
       Inr \<lparr> dist = \<lparr> width = 800, height = 600, blob = ex_candidate \<rparr>,
             source = \<lparr> width = 800, height = 600, blob = ex_file3 \<rparr> \<rparr>
   \<and> ex_candidate \<noteq> ex_file3"
  by (simp add: model_defs ex_defs ex_scale_fits Let_def)

section \<open>The gates on the media type\<close>

text \<open>
  C4. A file whose type does not start with \<open>image\<close> is rejected with the
  unsupported-type error, whatever the environment: the event log is the one
  \<open>process\<close> started with (nothing was loaded, drawn or encoded), and there is no
  outcome.
\<close>

theorem process_rejects_non_image:
  assumes "\<not> match_image (btype file)"
  shows "process e this file tr =
           (Inl (Error (''unsupport file type: '' @ btype file)),
            this\<lparr> outputType := Some (btype file) \<rparr>, tr)"
  using assms by (simp add: process_def process_begin_def)

theorem process_rejects_non_image_witness:
  "\<not> match_image (btype ex_text)
   \<and> process ex_env ex_this ex_text [] =
       (Inl (Error ''unsupport file type: text/plain''),
        ex_this\<lparr> outputType := Some ''text/plain'' \<rparr>, [])"
proof -
  have no: "\<not> match_image (btype ex_text)"
    by (simp add: match_image_def ex_text_def)
  from process_rejects_non_image [OF no, of ex_env ex_this "[]"] no show ?thesis
    by (simp add: ex_text_def)
qed

text \<open>
  C3. For a canvas of positive width and height, when the width is at most
  \<open>maxWidth\<close> and the height at most \<open>maxHeight\<close> the scale of line 52 is 1 and
  \<open>drawImage\<close> returns the canvas it was given and logs no call on any canvas; and the
  scale is never greater than 1, whatever the configuration and the canvas.
\<close>

theorem scale_of_fitting_canvas:
  assumes "0 < cwidth cv" "0 < cheight cv"
    and "js_le (Fin (of_int (cwidth cv))) (maxWidth (config this))"
    and "js_le (Fin (of_int (cheight cv))) (maxHeight (config this))"
  shows "compute_scale (config this) cv = Fin 1
         \<and> drawImage e this cv (compute_scale (config this) cv) tr = (Inr (Some cv), tr)
         \<and> \<not> js_gt (compute_scale cfg' cv') (Fin 1)"
  using compute_scale_fitting [OF assms] compute_scale_le_1
  by (simp add: drawImage_def js_eq_def)

theorem scale_of_fitting_canvas_witness:
  "0 < cwidth ex_canvas \<and> 0 < cheight ex_canvas
   \<and> js_le (Fin (of_int (cwidth ex_canvas))) (maxWidth (config ex_this))
   \<and> js_le (Fin (of_int (cheight ex_canvas))) (maxHeight (config ex_this))
   \<and> compute_scale (config ex_this) ex_canvas = Fin 1
   \<and> drawImage ex_env ex_this ex_canvas (compute_scale (config ex_this) ex_canvas) [] =
       (Inr (Some ex_canvas), [])
   \<and> \<not> js_gt (compute_scale (config ex_this) ex_wide_canvas) (Fin 1)"
proof -
  have h: "0 < cwidth ex_canvas" "0 < cheight ex_canvas"
      "js_le (Fin (of_int (cwidth ex_canvas))) (maxWidth (config ex_this))"
      "js_le (Fin (of_int (cheight ex_canvas))) (maxHeight (config ex_this))"
    by (simp_all add: ex_canvas_def ex_config js_le_def)
  from scale_of_fitting_canvas [OF h, of ex_env "[]" "config ex_this" ex_wide_canvas] h
  show ?thesis by blast
qed


section \<open>The number of steps\<close>

lemma rnd_ge_one:
  assumes "1 \<le> a"
  shows "rnd a = PosInf \<or> (\<exists>y. rnd a = Fin y \<and> 1 \<le> y \<and> \<bar>y - a\<bar> \<le> a / 2 ^ 53)"
proof -
  have "(2::real) powr (- 1022) \<le> 2 powr 0" by (rule powr_mono) simp_all
  then have small: "(2::real) powr (- 1022) \<le> a" using assms by simp
  have "2 powr of_int 0 \<le> a" using assms by simp
  from rnd_ge_pow2 [OF this] rnd_rel_error [OF small] show ?thesis by auto
qed

lemma steps_of_quotient:
  "js_div (js_div (Fin 1) scale) SCALE_FACTOR = Fin q \<Longrightarrow>
     drawImage_steps scale = Fin (of_int (min 4 \<lceil>q\<rceil>))"
  "js_div (js_div (Fin 1) scale) SCALE_FACTOR = PosInf \<Longrightarrow> drawImage_steps scale = Fin 4"
  by (simp_all add: drawImage_steps_def MAX_STEPS_def Math_min2_def min_def)

text \<open>
  The quotient of line 126 for a scale strictly between 0 and 1: it overflows, or both
  divisions give a finite number within a relative \<open>2 ^ - 53\<close> of the exact quotient,
  and the second is greater than 1.
\<close>

lemma quotient_cases:
  assumes "0 < s" "s < 1"
  shows "js_div (js_div (Fin 1) (Fin s)) SCALE_FACTOR = PosInf
         \<or> (\<exists>y q. js_div (Fin 1) (Fin s) = Fin y \<and> 1 \<le> y \<and> \<bar>y - 1 / s\<bar> \<le> (1 / s) / 2 ^ 53
               \<and> js_div (js_div (Fin 1) (Fin s)) SCALE_FACTOR = Fin q \<and> 1 < q
               \<and> \<bar>q - y / (6243314768165359 / 2 ^ 53)\<bar>
                    \<le> (y / (6243314768165359 / 2 ^ 53)) / 2 ^ 53)"
proof -
  define L :: real where "L = 6243314768165359 / 2 ^ 53"
  have L: "0 < L" "L < 7 / 10" by (simp_all add: L_def)
  have d1: "js_div (Fin 1) (Fin s) = rnd (1 / s)" using assms(1) by simp
  have "1 \<le> 1 / s" using assms by simp
  from rnd_ge_one [OF this] show ?thesis
  proof
    assume "rnd (1 / s) = PosInf"
    then show ?thesis using d1 by (simp add: SCALE_FACTOR_def)
  next
    assume "\<exists>y. rnd (1 / s) = Fin y \<and> 1 \<le> y \<and> \<bar>y - 1 / s\<bar> \<le> 1 / s / 2 ^ 53"
    then obtain y where y: "rnd (1 / s) = Fin y" "1 \<le> y" "\<bar>y - 1 / s\<bar> \<le> 1 / s / 2 ^ 53"
      by blast
    have d2: "js_div (js_div (Fin 1) (Fin s)) SCALE_FACTOR = rnd (y / L)"
      using d1 y(1) L(1) by (simp add: SCALE_FACTOR_def L_def)
    have big: "10 / 7 \<le> y / L"
    proof -
      have "10 / 7 \<le> 1 / L" using L by (simp add: field_simps)
      also have "\<dots> \<le> y / L" using y(2) L(1) by (simp add: divide_right_mono)
      finally show ?thesis .
    qed
    then have "1 \<le> y / L" by linarith
    from rnd_ge_one [OF this] show ?thesis
    proof
      assume "rnd (y / L) = PosInf"
      then show ?thesis using d2 by simp
    next
      assume "\<exists>q. rnd (y / L) = Fin q \<and> 1 \<le> q \<and> \<bar>q - y / L\<bar> \<le> y / L / 2 ^ 53"
      then obtain q where q: "rnd (y / L) = Fin q" "\<bar>q - y / L\<bar> \<le> y / L / 2 ^ 53" by blast
      define z where "z = y / L"
      have z: "10 / 7 \<le> z" "\<bar>q - z\<bar> \<le> z / 2 ^ 53" using big q(2) by (simp_all add: z_def)
      have "z / 2 ^ 53 \<le> z / 10" using z(1) by simp
      then have "z - z / 10 \<le> q" using z(2) by (simp only: abs_le_iff) linarith
      then have "1 < q" using z(1) by linarith
      then show ?thesis using d1 d2 y q unfolding L_def by auto
    qed
  qed
qed

lemma steps_nat:
  assumes "0 < s" "s < 1"
  shows "\<exists>n. drawImage_steps (Fin s) = Fin (of_nat n) \<and> 2 \<le> n \<and> n \<le> 4"
proof -
  from quotient_cases [OF assms] show ?thesis
  proof
    assume "js_div (js_div (Fin 1) (Fin s)) SCALE_FACTOR = PosInf"
    then have "drawImage_steps (Fin s) = Fin (of_nat 4)" by (simp add: steps_of_quotient)
    then show ?thesis by (intro exI [of _ 4]) simp
  next
    assume "\<exists>y q. js_div (Fin 1) (Fin s) = Fin y \<and> 1 \<le> y \<and> \<bar>y - 1 / s\<bar> \<le> (1 / s) / 2 ^ 53
               \<and> js_div (js_div (Fin 1) (Fin s)) SCALE_FACTOR = Fin q \<and> 1 < q
               \<and> \<bar>q - y / (6243314768165359 / 2 ^ 53)\<bar>
                    \<le> (y / (6243314768165359 / 2 ^ 53)) / 2 ^ 53"
    then obtain q where q: "js_div (js_div (Fin 1) (Fin s)) SCALE_FACTOR = Fin q" "1 < q"
      by blast
    let ?k = "min 4 \<lceil>q\<rceil>"
    have k: "2 \<le> ?k" "?k \<le> 4" using q(2) by (simp_all add: le_ceiling_iff)
    have "drawImage_steps (Fin s) = Fin (of_int ?k)" using q(1) by (rule steps_of_quotient)
    also have "of_int ?k = (of_nat (nat ?k) :: real)" using k by simp
    finally have "drawImage_steps (Fin s) = Fin (of_nat (nat ?k))" .
    moreover have "2 \<le> nat ?k" "nat ?k \<le> 4" using k by linarith+
    ultimately show ?thesis by blast
  qed
qed

text \<open>A scale of a quarter or less takes the four steps of \<open>MAX_STEPS\<close>.\<close>

lemma steps_small:
  assumes "0 \<le> s" "s \<le> 1 / 4"
  shows "drawImage_steps (Fin s) = Fin 4"
proof (cases "s = 0")
  case True
  then show ?thesis by (simp add: steps_of_quotient SCALE_FACTOR_def)
next
  case False
  then have s: "0 < s" using assms(1) by simp
  define L :: real where "L = 6243314768165359 / 2 ^ 53"
  have L: "0 < L" "L \<le> 1" by (simp_all add: L_def)
  have d1: "js_div (Fin 1) (Fin s) = rnd (1 / s)" using s by simp
  have "4 \<le> 1 / s" using s assms(2) by (simp add: field_simps)
  then have "2 powr of_int 2 \<le> 1 / s" by simp
  from rnd_ge_pow2 [OF this] have "rnd (1 / s) = PosInf \<or> (\<exists>y. rnd (1 / s) = Fin y \<and> 4 \<le> y)"
    by simp
  then show ?thesis
  proof
    assume "rnd (1 / s) = PosInf"
    then show ?thesis using d1 by (simp add: steps_of_quotient SCALE_FACTOR_def)
  next
    assume "\<exists>y. rnd (1 / s) = Fin y \<and> 4 \<le> y"
    then obtain y where y: "rnd (1 / s) = Fin y" "4 \<le> y" by blast
    have d2: "js_div (js_div (Fin 1) (Fin s)) SCALE_FACTOR = rnd (y / L)"
      using d1 y(1) L(1) by (simp add: SCALE_FACTOR_def L_def)
    have "y \<le> y / L" using L y(2) by (simp add: field_simps mult_left_le)
    then have "2 powr of_int 2 \<le> y / L" using y(2) by simp
    from rnd_ge_pow2 [OF this]
    have "rnd (y / L) = PosInf \<or> (\<exists>q. rnd (y / L) = Fin q \<and> 4 \<le> q)" by simp
    then show ?thesis
    proof
      assume "rnd (y / L) = PosInf"
      then show ?thesis using d2 by (simp add: steps_of_quotient)
    next
      assume "\<exists>q. rnd (y / L) = Fin q \<and> 4 \<le> q"
      then obtain q where q: "rnd (y / L) = Fin q" "4 \<le> q" by blast
      then have "4 \<le> \<lceil>q\<rceil>" by (simp add: le_ceiling_iff)
      then have "min 4 \<lceil>q\<rceil> = 4" by simp
      then show ?thesis using steps_of_quotient(1) [of "Fin s" q] d2 q(1) by simp
    qed
  qed
qed

lemma steps_sixteenth: "drawImage_steps (Fin (1 / 16)) = Fin 4"
  by (rule steps_small) simp_all

text \<open>The exponent \<^verbatim>\<open>1 / steps\<close> of line 128, for the three possible numbers of steps.\<close>

lemma recip_steps:
  assumes "2 \<le> n" "n \<le> 4"
  shows "\<exists>r. js_div (Fin 1) (Fin (of_nat n)) = Fin r \<and> 1 / 4 \<le> r \<and> r \<le> 1 / 2
             \<and> \<bar>r * of_nat n - 1\<bar> \<le> 1 / 2 ^ 53 \<and> (n \<noteq> 3 \<longrightarrow> r * of_nat n = 1)"
proof -
  consider "n = 2" | "n = 3" | "n = 4" using assms by linarith
  then show ?thesis
  proof cases
    case 1
    then show ?thesis by (intro exI [of _ "1 / 2"]) (simp add: rnd_fractions)
  next
    case 2
    have "(2::real) powr (- 1022) \<le> 2 powr (- 2)" by (rule powr_mono) simp_all
    also have "\<dots> = 1 / 2 powr 2" by (rule powr_minus_divide)
    also have "\<dots> \<le> 1 / 3" by simp
    finally have lo: "(2::real) powr (- 1022) \<le> 1 / 3" .
    have "(2::real) powr 0 \<le> 2 powr 1023" by (rule powr_mono) simp_all
    then have hi: "(1 / 3 :: real) < 2 powr 1023" by simp
    obtain r where r: "rnd (1 / 3) = Fin r" using rnd_finite [OF _ hi] by auto
    then have "\<bar>r - 1 / 3\<bar> \<le> (1 / 3) / 2 ^ 53" using rnd_rel_error [OF lo] by auto
    then have b: "r - 1 / 3 \<le> (1 / 3) / 2 ^ 53" "1 / 3 - r \<le> (1 / 3) / 2 ^ 53"
      by linarith+
    have "r * 3 - 1 \<le> 1 / 2 ^ 53" "1 - r * 3 \<le> 1 / 2 ^ 53" using b by simp_all
    then have "\<bar>r * 3 - 1\<bar> \<le> 1 / 2 ^ 53" by linarith
    moreover have "1 / 4 \<le> r" "r \<le> 1 / 2" using b by simp_all
    ultimately have "\<bar>r * 3 - 1\<bar> \<le> 1 / 2 ^ 53" "1 / 4 \<le> r" "r \<le> 1 / 2" by blast+
    then show ?thesis using 2 r by simp
  next
    case 3
    then show ?thesis by (intro exI [of _ "1 / 4"]) (simp add: rnd_fractions)
  qed
qed

lemma factor_Fin:
  assumes "0 < s" "drawImage_steps (Fin s) = Fin (of_nat n)"
    and "js_div (Fin 1) (Fin (of_nat n)) = Fin r" "r \<noteq> 0"
  shows "drawImage_factor e (Fin s) = mathPow e s r"
  using assms by (simp add: drawImage_factor_def Math_pow_def)

lemma powr_sixteenth: "(1 / 16 :: real) powr (1 / 4) = 1 / 2"
proof -
  have a: "(1 / 2 :: real) powr 4 = (1 / 2) ^ 4"
    using powr_numeral [of "1 / 2 :: real" "num.Bit0 (num.Bit0 num.One)"] by simp
  have b: "(1 / 2 :: real) ^ 4 = 1 / 16" by (simp add: power_divide)
  have "(1 / 16 :: real) powr (1 / 4) = ((1 / 2) powr 4) powr (1 / 4)" by (simp only: a b)
  also have "\<dots> = 1 / 2" by (simp only: powr_powr) simp
  finally show ?thesis .
qed

lemma factor_sixteenth:
  assumes "mathPow e = mathPow ex_env"
  shows "drawImage_factor e (Fin (1 / 16)) = Fin (1 / 2)"
proof -
  have "drawImage_factor e (Fin (1 / 16)) = mathPow e (1 / 16) (1 / 4)"
    by (rule factor_Fin [of _ 4]) (simp_all add: steps_sixteenth rnd_fractions)
  then show ?thesis by (simp add: assms ex_env_def powr_sixteenth rnd_fractions)
qed

section \<open>The loop\<close>

lemma clear_append: "clear this ctx w h tr = tr @ clear this ctx w h []"
  by (simp add: clear_def)

lemma drawLoop_more:
  assumes "drawImage_steps scale = Fin (of_nat n)" "Suc i < n"
    and "cwidth sourceC \<noteq> 0" "cheight sourceC \<noteq> 0" "cwidth mirrorC \<noteq> 0" "cheight mirrorC \<noteq> 0"
  shows "drawLoop e this scale sourceC mirrorC i w h tr =
           drawLoop e this scale sourceC mirrorC (Suc i) (step_dim e scale w) (step_dim e scale h)
             (tr @ step_events e this scale sourceC mirrorC i w h)"
  apply (subst drawLoop.simps)
  using assms clear_append [of this _ w h tr]
  by (auto simp: Let_def js_eq_def step_dim_def step_events_def step_target_def step_source_def
        simp flip: even_iff_mod_2_eq_zero)

lemma drawLoop_last:
  assumes "drawImage_steps scale = Fin (of_nat n)" "Suc i = n" "cref mirrorC \<noteq> cref sourceC"
    and "cwidth sourceC \<noteq> 0" "cheight sourceC \<noteq> 0" "cwidth mirrorC \<noteq> 0" "cheight mirrorC \<noteq> 0"
  shows "drawLoop e this scale sourceC mirrorC i w h tr =
           (if step_dim e scale w = 0 \<or> step_dim e scale h = 0
            then (Inl IndexSizeError, tr @ step_events e this scale sourceC mirrorC i w h)
            else
              (Inr (Some ((step_target sourceC mirrorC i)
                       \<lparr> cwidth := set_dim 300 (step_dim e scale w),
                         cheight := set_dim 150 (step_dim e scale h) \<rparr>)),
               tr @ step_events e this scale sourceC mirrorC i w h @
                 [GetImageData (cref (step_target sourceC mirrorC i))
                    (step_dim e scale w) (step_dim e scale h),
                  SetWidth (cref (step_target sourceC mirrorC i)) (step_dim e scale w),
                  SetHeight (cref (step_target sourceC mirrorC i)) (step_dim e scale h),
                  PutImageData (cref (step_target sourceC mirrorC i))]))"
  apply (subst drawLoop.simps)
  using assms clear_append [of this _ w h tr]
  by (auto simp: Let_def js_eq_def step_dim_def step_events_def step_target_def step_source_def
        simp flip: even_iff_mod_2_eq_zero)

text \<open>
  With a whole number of steps ahead the loop never ends without a return: it returns
  a canvas or one of its canvas calls throws.
\<close>

lemma drawLoop_defined:
  assumes "drawImage_steps scale = Fin (of_nat n)" "i < n"
  shows "fst (drawLoop e this scale sourceC mirrorC i w h tr) \<noteq> Inr None"
  using assms(2)
proof (induction "n - Suc i" arbitrary: i w h tr)
  case 0
  then have "Suc i = n" by simp
  then show ?case
    apply (subst drawLoop.simps)
    using assms(1) by (auto simp: Let_def js_eq_def split: prod.splits)
next
  case (Suc k)
  then have more: "Suc i < n" "k = n - Suc (Suc i)" by simp_all
  show ?case
    apply (subst drawLoop.simps)
    using assms(1) more(1) Suc.hyps(1) [OF more(2) more(1)]
    by (auto simp: Let_def js_eq_def split: prod.splits)
qed

lemma drawImage_defined:
  assumes "0 < s" "s < 1"
  shows "fst (drawImage e this cv (Fin s) tr) \<noteq> Inr None"
proof -
  obtain n where n: "drawImage_steps (Fin s) = Fin (of_nat n)" "2 \<le> n"
    using steps_nat [OF assms] by blast
  then have "0 < n" by simp
  from drawLoop_defined [OF n(1) this] show ?thesis
    using assms by (simp add: drawImage_def js_eq_def Let_def)
qed

text \<open>The four steps of a scale of a quarter or less, on canvases with no side of 0.\<close>

lemma drawLoop_four:
  assumes "drawImage_steps scale = Fin 4" "cref mirrorC \<noteq> cref sourceC"
    and "cwidth sourceC \<noteq> 0" "cheight sourceC \<noteq> 0" "cwidth mirrorC \<noteq> 0" "cheight mirrorC \<noteq> 0"
  shows "drawLoop e this scale sourceC mirrorC 0 w h tr =
           (let w1 = step_dim e scale w; h1 = step_dim e scale h;
                w2 = step_dim e scale w1; h2 = step_dim e scale h1;
                w3 = step_dim e scale w2; h3 = step_dim e scale h2;
                w4 = step_dim e scale w3; h4 = step_dim e scale h3;
                evs = step_events e this scale sourceC mirrorC 0 w h
                    @ step_events e this scale sourceC mirrorC 1 w1 h1
                    @ step_events e this scale sourceC mirrorC 2 w2 h2
                    @ step_events e this scale sourceC mirrorC 3 w3 h3
            in if w4 = 0 \<or> h4 = 0 then (Inl IndexSizeError, tr @ evs)
               else (Inr (Some (sourceC\<lparr> cwidth := set_dim 300 w4,
                                         cheight := set_dim 150 h4 \<rparr>)),
                     tr @ evs @ [GetImageData (cref sourceC) w4 h4, SetWidth (cref sourceC) w4,
                                 SetHeight (cref sourceC) h4, PutImageData (cref sourceC)]))"
proof -
  have n: "drawImage_steps scale = Fin (of_nat 4)" using assms(1) by simp
  have l0: "Suc 0 < 4" and l1: "Suc (Suc 0) < 4" and l2: "Suc (Suc (Suc 0)) < 4"
    and l3: "Suc (Suc (Suc (Suc 0))) = 4" by simp_all
  have i: "(1::nat) = Suc 0" "(2::nat) = Suc (Suc 0)" "(3::nat) = Suc (Suc (Suc 0))" by simp_all
  show ?thesis
    unfolding i
    by (simp add: drawLoop_more [OF n l0 assms(3-6)] drawLoop_more [OF n l1 assms(3-6)]
          drawLoop_more [OF n l2 assms(3-6)] drawLoop_last [OF n l3 assms(2-6)]
          step_target_def Let_def)
qed

lemma step_dim_sixteenth:
  assumes "mathPow e = mathPow ex_env"
  shows "step_dim e (Fin (1 / 16)) 25600 = 12800" "step_dim e (Fin (1 / 16)) 12800 = 6400"
    "step_dim e (Fin (1 / 16)) 6400 = 3200" "step_dim e (Fin (1 / 16)) 3200 = 1600"
    "step_dim e (Fin (1 / 16)) 8 = 4" "step_dim e (Fin (1 / 16)) 4 = 2"
    "step_dim e (Fin (1 / 16)) 2 = 1" "step_dim e (Fin (1 / 16)) 1 = 0"
  by (simp_all add: step_dim_def factor_sixteenth [OF assms] ToInt32_def rnd_numeral rnd_one
        rnd_fractions)

lemma ex_pow: "mathPow ex_env = mathPow ex_env" "mathPow ex_wide_env = mathPow ex_env"
  by (simp_all add: ex_wide_env_def)


section \<open>The sizes the loop computes\<close>

text \<open>
  C10 holds in part. For every scale strictly between 0 and 1 the step count is a whole
  number from 2 to 4, and \<open>drawImage\<close> never returns undefined: the loop runs and
  reaches its last step. But it does not always return a canvas. On the canvas of
  25600 by 8 at the scale \<open>1 / 16\<close> there are four steps of factor \<open>1 / 2\<close>; the fourth
  computes \<open>1 * 0.5 | 0 = 0\<close> for the height, and \<^verbatim>\<open>getImageData(0, 0, 1600, 0)\<close> at
  line 166 throws.
\<close>

theorem drawImage_defined_but_throws:
  assumes "0 < s" "s < 1"
  shows "(\<exists>n. drawImage_steps (Fin s) = Fin (of_nat n) \<and> 2 \<le> n \<and> n \<le> 4)
         \<and> fst (drawImage e this cv (Fin s) tr) \<noteq> Inr None
         \<and> drawImage ex_env ex_this ex_wide_canvas (Fin (1 / 16)) [] =
             (Inl IndexSizeError,
              [CreateCanvas 1, SetWidth 1 25600, SetHeight 1 8,
               ClearRect 1 25600 8, DrawScaled 1 0 25600 8 12800 4,
               ClearRect 0 12800 4, DrawScaled 0 1 12800 4 6400 2,
               ClearRect 1 6400 2, DrawScaled 1 0 6400 2 3200 1,
               ClearRect 0 3200 1, DrawScaled 0 1 3200 1 1600 0])"
proof -
  have "drawImage ex_env ex_this ex_wide_canvas (Fin (1 / 16)) [] =
             (Inl IndexSizeError,
              [CreateCanvas 1, SetWidth 1 25600, SetHeight 1 8,
               ClearRect 1 25600 8, DrawScaled 1 0 25600 8 12800 4,
               ClearRect 0 12800 4, DrawScaled 0 1 12800 4 6400 2,
               ClearRect 1 6400 2, DrawScaled 1 0 6400 2 3200 1,
               ClearRect 0 3200 1, DrawScaled 0 1 3200 1 1600 0])"
    by (simp add: drawImage_def js_eq_def ex_wide_canvas_def steps_sixteenth drawLoop_four
          step_dim_sixteenth [OF ex_pow(1)] step_events_def step_target_def step_source_def
          clear_def ex_config DEFAULT_TYPE_def Let_def)
  then show ?thesis
    using steps_nat [OF assms] drawImage_defined [OF assms] by blast
qed

theorem drawImage_defined_but_throws_witness:
  "(0::real) < 1 / 16 \<and> (1::real) / 16 < 1
   \<and> drawImage_steps (Fin (1 / 16)) = Fin (of_nat 4) \<and> (2::nat) \<le> 4
   \<and> fst (drawImage ex_env ex_this ex_wide_canvas (Fin (1 / 16)) []) = Inl IndexSizeError
   \<and> fst (drawImage ex_env ex_this ex_wide_canvas (Fin (1 / 16)) []) \<noteq> Inr None"
proof -
  have h: "(0::real) < 1 / 16" "(1::real) / 16 < 1" by simp_all
  from drawImage_defined_but_throws [OF h, of ex_env ex_this ex_wide_canvas "[]"] h
  show ?thesis by (simp add: steps_sixteenth)
qed

text \<open>
  C8 fails in the code. Under the default configuration an image of 25600 by 8 is
  scaled by \<open>1 / 16\<close> in four steps of factor \<open>1 / 2\<close>. The last step computes the pair
  1600 by 0 and draws to it, \<^verbatim>\<open>getImageData\<close> throws on the height 0, and \<open>process\<close>
  rejects: a dimension below 1 is produced, and there is no \<open>dist\<close>.
\<close>

lemma ex_wide_fields:
  "loadImage ex_wide_env f = Some ex_wide_image"
  "exifOrientation ex_wide_env img = None"
  "getTransform ex_wide_env img t = (iwidth img, iheight img, ex_matrix)"
  by (simp_all add: ex_wide_env_def ex_env_def)

theorem zero_height_is_produced:
  "process ex_wide_env ex_this ex_file [] =
     (Inl IndexSizeError, ex_this\<lparr> outputType := Some ''image/png'' \<rparr>,
      [LoadImage ex_file, CreateCanvas 0, SetWidth 0 25600, SetHeight 0 8,
       ClearRect 0 25600 8, Transform 0 ex_matrix, DrawImage 0 ex_wide_image,
       CreateCanvas 1, SetWidth 1 25600, SetHeight 1 8,
       ClearRect 1 25600 8, DrawScaled 1 0 25600 8 12800 4,
       ClearRect 0 12800 4, DrawScaled 0 1 12800 4 6400 2,
       ClearRect 1 6400 2, DrawScaled 1 0 6400 2 3200 1,
       ClearRect 0 3200 1, DrawScaled 0 1 3200 1 1600 0])
   \<and> step_dim ex_wide_env (compute_scale (config ex_this) ex_wide_canvas) 1 = 0"
  by (simp add: model_defs ex_wide_fields ex_wide_image_def ex_file_def ex_wide_canvas_def
        ex_config ex_scale_wide steps_sixteenth drawLoop_four step_dim_sixteenth [OF ex_pow(2)]
        step_events_def step_target_def step_source_def Let_def)

section \<open>The fields of the instance\<close>

lemma process_begin_this:
  "fst (snd (process_begin this file tr)) =
     this\<lparr> outputType := Some (if match_image (btype file) \<and> \<not> isSupportedType (btype file)
                                then DEFAULT_TYPE else btype file) \<rparr>"
  by (simp add: process_begin_def Let_def)

lemma process_begin_outputType:
  "process_begin (this\<lparr> outputType := t \<rparr>) file tr = process_begin this file tr"
  by (simp add: process_begin_def Let_def)

lemma process_this:
  "fst (snd (process e this file tr)) = fst (snd (process_begin this file tr))"
  by (simp add: process_def split: prod.splits sum.splits)

text \<open>
  C9, as the code has it. The only field of the instance that \<open>process\<close> writes is
  \<open>outputType\<close>: after the call the instance is the one before it with \<open>outputType\<close>
  set to the type of the file, or to the default type on fallback, and \<open>config\<close> is
  unchanged. The field is assigned before it is read, so a call run on its own does
  not depend on the \<open>outputType\<close> an earlier call left.
\<close>

theorem process_frame:
  "fst (snd (process e this file tr)) =
     this\<lparr> outputType := Some (if match_image (btype file) \<and> \<not> isSupportedType (btype file)
                                then DEFAULT_TYPE else btype file) \<rparr>
   \<and> config (fst (snd (process e this file tr))) = config this
   \<and> process e (this\<lparr> outputType := t \<rparr>) file tr = process e this file tr"
  using process_begin_this [of "this" "file" "tr"]
  by (simp add: process_this) (simp add: process_def process_begin_outputType)

theorem process_frame_witness:
  "fst (snd (process ex_env ex_this ex_file [])) = ex_this\<lparr> outputType := Some ''image/png'' \<rparr>
   \<and> config (fst (snd (process ex_env ex_this ex_file []))) = config ex_this
   \<and> process ex_env (ex_this\<lparr> outputType := Some ''image/webp'' \<rparr>) ex_file [] =
       process ex_env ex_this ex_file []"
  using process_frame [of ex_env ex_this ex_file "[]" "Some ''image/webp''"]
  by (simp add: ex_file_def match_image_def isSupportedType_def SUPPORT_MIME_TYPES_def
        MIME_PNG_def)

text \<open>
  C9 as stated fails: \<open>process\<close> writes the field \<open>outputType\<close> of the instance, and the
  callbacks read it when they run. Two calls on one instance, the second made before
  the callbacks of the first have run: the first call, of a PNG file, is then encoded as
  JPEG, the type the second call (of a GIF file) has left in the field.
\<close>

theorem process_writes_outputType:
  "outputType ex_this = None
   \<and> outputType (fst (snd (process ex_env ex_this ex_file []))) = Some ''image/png''
   \<and> fst (snd (process_begin ex_this ex_file [])) = ex_this\<lparr> outputType := Some ''image/png'' \<rparr>
   \<and> fst (snd (process_begin (ex_this\<lparr> outputType := Some ''image/png'' \<rparr>) ex_gif [])) =
       ex_this\<lparr> outputType := Some ''image/jpeg'' \<rparr>
   \<and> last (snd (process_chain ex_env (ex_this\<lparr> outputType := Some ''image/png'' \<rparr>) ex_file [])) =
       ToDataURL 0 (Some ''image/png'') (quality (config ex_this))
   \<and> last (snd (process_chain ex_env (ex_this\<lparr> outputType := Some ''image/jpeg'' \<rparr>) ex_file [])) =
       ToDataURL 0 (Some ''image/jpeg'') (quality (config ex_this))"
  by (simp add: model_defs ex_defs ex_config ex_scale_fits Let_def)

section \<open>The fallback to the default type\<close>




















section \<open>Steps and factor in binary64\<close>

lemma rel_trans:
  fixes a b x u v :: real
  assumes "0 \<le> x" "0 \<le> v" "\<bar>a - x\<bar> \<le> u * x" "\<bar>b - a\<bar> \<le> v * a"
  shows "\<bar>b - x\<bar> \<le> (u + v + u * v) * x"
proof -
  have "a \<le> x + u * x" using assms(3) by linarith
  then have "v * a \<le> v * (x + u * x)" using assms(2) by (rule mult_left_mono)
  then have "\<bar>b - a\<bar> \<le> v * (x + u * x)" using assms(4) by linarith
  moreover have "\<bar>b - x\<bar> \<le> \<bar>b - a\<bar> + \<bar>a - x\<bar>" by linarith
  ultimately have "\<bar>b - x\<bar> \<le> v * (x + u * x) + u * x" using assms(3) by linarith
  also have "\<dots> = (u + v + u * v) * x" by (simp add: algebra_simps)
  finally show ?thesis .
qed

text \<open>
  The finite quotient of line 126 is within a relative \<open>2 ^ - 50\<close> of the real
  \<open>(1 / s) / ln 2\<close>: the two divisions and \<^verbatim>\<open>Math.log(2)\<close> are each within
  \<open>2 ^ - 53\<close>.
\<close>

lemma quotient_error:
  assumes "0 < s" "s < 1" "js_div (js_div (Fin 1) (Fin s)) SCALE_FACTOR = Fin q"
  shows "\<bar>q - (1 / s) / ln 2\<bar> \<le> ((1 / s) / ln 2) / 2 ^ 50"
proof -
  define L :: real where "L = 6243314768165359 / 2 ^ 53"
  define d :: real where "d = 1 / 2 ^ 53"
  define x where "x = (1 / s) / ln 2"
  have L: "1 / 2 \<le> L" "0 < L" by (simp_all add: L_def)
  have ln2: "L < ln 2" "ln 2 - L < 1 / 2 ^ 54"
    using SCALE_FACTOR_nearest(2,3) by (simp_all add: L_def)
  have ln2_pos: "0 < ln (2::real)" by simp
  have d: "0 \<le> d" "d \<le> 1 / 2 ^ 53" by (simp_all add: d_def)
  have x: "0 < x" using assms(1) ln2_pos by (simp add: x_def)
  from quotient_cases [OF assms(1,2)] assms(3)
  obtain y where y: "\<bar>y - 1 / s\<bar> \<le> (1 / s) / 2 ^ 53"
    and q: "\<bar>q - y / L\<bar> \<le> (y / L) / 2 ^ 53"
    by (auto simp: L_def)
  have e1: "\<bar>(1 / s) / L - x\<bar> \<le> d * x"
  proof -
    define w where "w = (ln 2 - L) / L"
    have eq: "(1 / s) / L - x = x * w"
      using L(2) ln2_pos assms(1) by (simp add: x_def w_def field_simps)
    have w0: "0 \<le> w" using ln2(1) L(2) by (simp add: w_def)
    have "ln 2 - L \<le> 1 / 2 ^ 54" using ln2(2) by simp
    then have "w \<le> (1 / 2 ^ 54) / L"
      unfolding w_def using L(2) by (intro divide_right_mono) simp_all
    also have "\<dots> \<le> (1 / 2 ^ 54) / (1 / 2)" using L by (intro divide_left_mono) simp_all
    also have "\<dots> = d" by (simp add: d_def)
    finally have wd: "w \<le> d" .
    have "0 \<le> x * w" using x w0 by simp
    then have "\<bar>(1 / s) / L - x\<bar> = x * w" by (simp only: eq abs_of_nonneg)
    also have "\<dots> \<le> x * d" using wd x by (intro mult_left_mono) simp_all
    finally show ?thesis by (simp add: mult.commute)
  qed
  have e2: "\<bar>y / L - (1 / s) / L\<bar> \<le> d * ((1 / s) / L)"
  proof -
    define u where "u = 1 / s"
    have yu: "\<bar>y - u\<bar> \<le> u / 2 ^ 53" using y by (simp add: u_def)
    have "y / L - u / L = (y - u) / L" by (simp only: diff_divide_distrib)
    then have "\<bar>y / L - u / L\<bar> = \<bar>y - u\<bar> / L"
      by (simp only: abs_divide abs_of_pos [OF L(2)])
    also have "\<dots> \<le> (u / 2 ^ 53) / L" using yu L(2) by (intro divide_right_mono) simp_all
    also have "\<dots> = d * (u / L)" by (simp add: d_def)
    finally show ?thesis by (simp only: u_def)
  qed
  have e3: "\<bar>q - y / L\<bar> \<le> d * (y / L)" using q by (simp add: d_def)
  have c1: "\<bar>y / L - x\<bar> \<le> (d + d + d * d) * x"
    by (rule rel_trans [OF _ d(1) e1 e2]) (use x in simp)
  have c2: "\<bar>q - x\<bar> \<le> ((d + d + d * d) + d + (d + d + d * d) * d) * x"
    by (rule rel_trans [OF _ d(1) c1 e3]) (use x in simp)
  have "(d + d + d * d) + d + (d + d + d * d) * d \<le> 1 / 2 ^ 50" by (simp add: d_def)
  then have "((d + d + d * d) + d + (d + d + d * d) * d) * x \<le> (1 / 2 ^ 50) * x"
    using x by (intro mult_right_mono) simp_all
  then show ?thesis using c2 by (simp add: x_def)
qed

text \<open>A quotient that overflows belongs to a scale below \<open>2 ^ - 100\<close>.\<close>

lemma quotient_finite:
  assumes "0 < s" "s < 1" "1 / s \<le> 2 ^ 100"
  shows "\<exists>q. js_div (js_div (Fin 1) (Fin s)) SCALE_FACTOR = Fin q"
proof -
  define L :: real where "L = 6243314768165359 / 2 ^ 53"
  have L: "1 / 2 \<le> L" "0 < L" by (simp_all add: L_def)
  have big: "(2::real) ^ 102 < 2 powr 1023"
  proof -
    have "(2::real) ^ 102 = 2 powr 102" by (simp add: powr_numeral)
    also have "\<dots> < 2 powr 1023" by (rule powr_less_mono) simp_all
    finally show ?thesis .
  qed
  have d1: "js_div (Fin 1) (Fin s) = rnd (1 / s)" using assms(1) by simp
  have pos: "0 < 1 / s" using assms(1) by simp
  have "(2::real) ^ 100 \<le> 2 ^ 102" by simp
  then have "1 / s < 2 powr 1023" using assms(3) big by linarith
  from rnd_finite [OF pos this] obtain y where y: "rnd (1 / s) = Fin y" by blast
  have "1 \<le> 1 / s" using assms by simp
  from rnd_ge_one [OF this] y have y1: "1 \<le> y" "\<bar>y - 1 / s\<bar> \<le> (1 / s) / 2 ^ 53" by auto
  have "(1 / s) / 2 ^ 53 \<le> 1 / s" using pos by (simp add: field_simps)
  then have "y \<le> 2 * (1 / s)" using y1(2) by linarith
  then have y2: "y \<le> 2 ^ 101" using assms(3) by simp
  have d2: "js_div (js_div (Fin 1) (Fin s)) SCALE_FACTOR = rnd (y / L)"
    using d1 y L(2) by (simp add: SCALE_FACTOR_def L_def)
  have "y / L \<le> y / (1 / 2)" using L y1(1) by (intro divide_left_mono) simp_all
  also have "\<dots> = 2 * y" by simp
  also have "\<dots> \<le> 2 * 2 ^ 101" using y2 by simp
  finally have "y / L \<le> 2 ^ 102" by simp
  then have "y / L < 2 powr 1023" using big by linarith
  moreover have "0 < y / L" using y1(1) L(2) by simp
  ultimately obtain q where "rnd (y / L) = Fin q" using rnd_finite by blast
  then show ?thesis using d2 by simp
qed

lemma quotient_overflow:
  assumes "0 < s" "s < 1" "js_div (js_div (Fin 1) (Fin s)) SCALE_FACTOR = PosInf"
  shows "4 \<le> (1 / s) / ln 2"
proof -
  have "\<not> 1 / s \<le> 2 ^ 100" using quotient_finite [OF assms(1,2)] assms(3) by auto
  then have "4 \<le> 1 / s" by simp
  moreover have "0 < ln (2::real)" "ln (2::real) < 1" using ln_2_less_1 by simp_all
  ultimately have "4 * ln 2 \<le> 1 / s"
    by (smt (verit, best) mult_left_le)
  then show ?thesis using \<open>0 < ln (2::real)\<close> by (simp only: pos_le_divide_eq)
qed

text \<open>The product of up to four numbers within a relative \<open>1e-7\<close> of \<open>f\<close>.\<close>

lemma perturbed_power:
  fixes f g s :: real
  assumes f: "0 < f" and g: "\<bar>g - f\<bar> \<le> f / 10 ^ 7" and n: "n \<le> 4"
    and s: "f ^ n = s" "s \<le> 1"
  shows "\<bar>g ^ n - s\<bar> \<le> 5 / 10 ^ 7"
proof -
  define r where "r = g / f"
  have gr: "g = r * f" using f by (simp add: r_def)
  have "r - 1 = (g - f) / f" using f by (simp add: r_def field_simps)
  then have "\<bar>r - 1\<bar> = \<bar>g - f\<bar> / f" using f by (simp add: abs_divide)
  also have "\<dots> \<le> (f / 10 ^ 7) / f" using g f by (simp add: divide_right_mono)
  also have "\<dots> = 1 / 10 ^ 7" using f by simp
  finally have r: "1 - 1 / 10 ^ 7 \<le> r" "r \<le> 1 + 1 / 10 ^ 7" by linarith+
  have r0: "0 \<le> r" using r(1) by simp
  have up: "r ^ n \<le> (1 + 1 / 10 ^ 7) ^ n" using r(2) r0 by (rule power_mono)
  have "(1 + 1 / 10 ^ 7 :: real) ^ n \<le> (1 + 1 / 10 ^ 7) ^ 4"
    using n by (intro power_increasing) simp_all
  also have "\<dots> \<le> 1 + 5 / 10 ^ 7" by (simp add: power4_eq_xxxx)
  finally have hi: "r ^ n \<le> 1 + 5 / 10 ^ 7" using up by linarith
  have "(1 - 1 / 10 ^ 7 :: real) ^ 4 \<le> (1 - 1 / 10 ^ 7) ^ n"
    using n by (intro power_decreasing) simp_all
  moreover have "1 - 5 / 10 ^ 7 \<le> (1 - 1 / 10 ^ 7 :: real) ^ 4" by (simp add: power4_eq_xxxx)
  moreover have "(1 - 1 / 10 ^ 7) ^ n \<le> r ^ n" using r(1) by (intro power_mono) simp_all
  ultimately have lo: "1 - 5 / 10 ^ 7 \<le> r ^ n" by linarith
  have s0: "0 \<le> s" using s(1) f by (metis less_eq_real_def zero_less_power)
  have "g ^ n - s = (r ^ n - 1) * s" by (simp add: gr power_mult_distrib s(1) algebra_simps)
  then have "\<bar>g ^ n - s\<bar> = \<bar>r ^ n - 1\<bar> * s" using s0 by (simp add: abs_mult)
  also have "\<dots> \<le> (5 / 10 ^ 7) * 1"
  proof (intro mult_mono)
    show "\<bar>r ^ n - 1\<bar> \<le> 5 / 10 ^ 7" using hi lo by linarith
  qed (use s0 s(2) in simp_all)
  finally show ?thesis by simp
qed

lemma exp_near_one:
  fixes z :: real
  assumes "\<bar>z\<bar> \<le> 1 / 2"
  shows "\<bar>exp z - 1\<bar> \<le> 2 * \<bar>z\<bar>"
proof (cases "0 \<le> z")
  case True
  then have "exp z \<le> 1 + 2 * z" using assms by (intro real_exp_bound_lemma) simp_all
  moreover have "1 \<le> exp z" using True by simp
  ultimately show ?thesis using True by linarith
next
  case False
  then have "exp z \<le> 1" by simp
  moreover have "1 + z \<le> exp z" by (rule exp_ge_add_one_self)
  ultimately show ?thesis using False by linarith
qed

text \<open>
  The real power to the rounded exponent \<^verbatim>\<open>1 / steps\<close>, multiplied \<open>steps\<close> times:
  the scale when the exponent is exact, within \<open>2 ^ - 51\<close> of it for a scale above a
  quarter.
\<close>

lemma power_of_rounded_root:
  fixes s r :: real
  assumes s: "0 < s" "s < 1" and n: "0 < n"
    and t: "\<bar>r * of_nat n - 1\<bar> \<le> 1 / 2 ^ 53" "r * of_nat n = 1 \<or> 1 / 4 < s"
  shows "\<bar>(s powr r) ^ n - s\<bar> \<le> 1 / 2 ^ 51"
proof -
  define z where "z = (r * of_nat n - 1) * ln s"
  have pw: "(s powr r) ^ n = s powr (1 + (r * of_nat n - 1))"
    using s(1) by (simp add: powr_power mult.commute)
  also have "\<dots> = s * s powr (r * of_nat n - 1)"
    using s(1) by (simp only: powr_add) simp
  also have "s powr (r * of_nat n - 1) = exp z"
    using s(1) by (simp add: powr_def z_def)
  finally have eq: "(s powr r) ^ n - s = s * (exp z - 1)" by (simp add: algebra_simps)
  have z: "\<bar>z\<bar> \<le> 1 / 2 ^ 52"
  proof (cases "r * of_nat n = 1")
    case True
    then show ?thesis by (simp add: z_def)
  next
    case False
    then have "1 / 4 < s" using t(2) by simp
    then have "ln (1 / 4) < ln s" using s(1) by (subst ln_less_cancel_iff) simp_all
    moreover have "ln (1 / 4 :: real) = - (2 * ln 2)"
    proof -
      have "ln (1 / 4 :: real) = - ln 4" by (simp add: ln_div)
      also have "ln (4::real) = ln (2 ^ 2)" by simp
      also have "\<dots> = 2 * ln 2" by (simp only: ln_realpow of_nat_numeral)
      finally show ?thesis .
    qed
    moreover have "ln (2::real) < 1" by (rule ln_2_less_1)
    moreover have "ln s < 0" using s by simp
    ultimately have "\<bar>ln s\<bar> \<le> 2" by linarith
    then have "\<bar>r * of_nat n - 1\<bar> * \<bar>ln s\<bar> \<le> (1 / 2 ^ 53) * 2"
      using t(1) by (intro mult_mono) simp_all
    then show ?thesis by (simp add: z_def abs_mult)
  qed
  then have "\<bar>z\<bar> \<le> 1 / 2" by simp
  from exp_near_one [OF this] z have "\<bar>exp z - 1\<bar> \<le> 1 / 2 ^ 51" by simp
  then have "s * \<bar>exp z - 1\<bar> \<le> 1 * (1 / 2 ^ 51)"
    using s by (intro mult_mono) simp_all
  then show ?thesis using s(1) by (simp add: eq abs_mult)
qed

text \<open>
  The factor of line 128 under an accurate \<^verbatim>\<open>Math.pow\<close>: finite, and its \<open>steps\<close>-fold
  product is within \<open>1e-6\<close> of the scale.
\<close>

lemma factor_error:
  assumes s: "0 < s" "s < 1" and acc: "pow_accurate e s"
    and n: "drawImage_steps (Fin s) = Fin (of_nat n)" "2 \<le> n" "n \<le> 4"
  shows "\<exists>r f. js_div (Fin 1) (Fin (of_nat n)) = Fin r \<and> mathPow e s r = Fin f
           \<and> drawImage_factor e (Fin s) = Fin f \<and> \<bar>f ^ n - s\<bar> \<le> 1 / 10 ^ 6"
proof -
  obtain r where r: "js_div (Fin 1) (Fin (of_nat n)) = Fin r" "1 / 4 \<le> r" "r \<le> 1 / 2"
      "\<bar>r * of_nat n - 1\<bar> \<le> 1 / 2 ^ 53" "n \<noteq> 3 \<longrightarrow> r * of_nat n = 1"
    using recip_steps [OF n(2,3)] by blast
  have fac: "drawImage_factor e (Fin s) = mathPow e s r"
    by (rule factor_Fin [OF s(1) n(1) r(1)]) (use r(2) in simp)
  define p where "p = s powr r"
  obtain f where f: "mathPow e s r = Fin f" "\<bar>f - p\<bar> \<le> p / 2 ^ 50"
    using acc r(2,3) unfolding pow_accurate_def p_def by blast
  have p: "0 < p" "p \<le> 1"
    using s r(2) by (simp_all add: p_def powr_le1)
  have "p / 2 ^ 50 \<le> p / 10 ^ 7" using p(1) by (intro divide_left_mono) simp_all
  then have near: "\<bar>f - p\<bar> \<le> p / 10 ^ 7" using f(2) by linarith
  have pn: "p ^ n \<le> 1" using p by (simp add: power_le_one)
  have a: "\<bar>f ^ n - p ^ n\<bar> \<le> 5 / 10 ^ 7"
    by (rule perturbed_power [OF p(1) near n(3) refl pn])
  have small: "r * of_nat n = 1 \<or> 1 / 4 < s"
  proof (cases "n = 3")
    case False
    then show ?thesis using r(5) by simp
  next
    case True
    have "\<not> s \<le> 1 / 4"
    proof
      assume "s \<le> 1 / 4"
      then have "drawImage_steps (Fin s) = Fin 4" using s(1) by (intro steps_small) simp_all
      then show False using n(1) True by simp
    qed
    then show ?thesis by simp
  qed
  have b: "\<bar>p ^ n - s\<bar> \<le> 1 / 2 ^ 51"
    unfolding p_def by (rule power_of_rounded_root [OF s _ r(4) small]) (use n(2) in simp)
  have "\<bar>f ^ n - s\<bar> \<le> 5 / 10 ^ 7 + 1 / 2 ^ 51" using a b by linarith
  also have "\<dots> \<le> 1 / 10 ^ 6" by simp
  finally have "\<bar>f ^ n - s\<bar> \<le> 1 / 10 ^ 6" .
  then show ?thesis using fac f(1) r(1) by simp
qed

text \<open>The scale \<^verbatim>\<open>0.1\<close>, that is the binary64 number nearest to a tenth, takes four steps.\<close>

lemma steps_tenth: "drawImage_steps (js_div (Fin 1) (Fin 10)) = Fin 4"
proof -
  have "(2::real) powr (- 1022) \<le> 2 powr (- 4)" by (rule powr_mono) simp_all
  also have "\<dots> = 1 / 2 powr 4" by (rule powr_minus_divide)
  also have "\<dots> \<le> 1 / 10" by simp
  finally have lo: "(2::real) powr (- 1022) \<le> 1 / 10" .
  have "(2::real) powr 0 \<le> 2 powr 1023" by (rule powr_mono) simp_all
  then have hi: "(1 / 10 :: real) < 2 powr 1023" by simp
  obtain d where d: "rnd (1 / 10) = Fin d" using rnd_finite [OF _ hi] by auto
  then have "\<bar>d - 1 / 10\<bar> \<le> (1 / 10) / 2 ^ 53" using rnd_rel_error [OF lo] by auto
  moreover have "(1 / 10 :: real) / 2 ^ 53 \<le> 1 / 10" by simp
  ultimately have "0 \<le> d" "d \<le> 1 / 4" by linarith+
  then have "drawImage_steps (Fin d) = Fin 4" by (rule steps_small)
  then show ?thesis using d by simp
qed

text \<open>A correctly rounded \<^verbatim>\<open>Math.pow\<close> is accurate.\<close>

lemma rnd_powr_accurate:
  assumes "mathPow e = (\<lambda>x y. rnd (x powr y))" "2 powr (- 1022) \<le> s" "s < 1"
  shows "pow_accurate e s"
  unfolding pow_accurate_def
proof (intro allI impI)
  fix y :: real
  assume y: "1 / 4 \<le> y \<and> y \<le> 1 / 2"
  have s: "0 < s" using assms(2) by (smt (verit) powr_gt_zero)
  define p where "p = s powr y"
  have "s powr 1 \<le> s powr y" using y s assms(3) by (intro powr_mono') simp_all
  then have lo: "2 powr (- 1022) \<le> p" using assms(2) s by (simp add: p_def)
  have "p \<le> 1" using y s assms(3) by (simp add: p_def powr_le1)
  moreover have "(2::real) powr 0 \<le> 2 powr 1023" by (rule powr_mono) simp_all
  ultimately have hi: "p < 2 powr 1023" by simp
  have "0 < p" using s by (simp add: p_def)
  from rnd_finite [OF this hi] obtain f where f: "rnd p = Fin f" by blast
  then have "\<bar>f - p\<bar> \<le> p / 2 ^ 53" using rnd_rel_error [OF lo] by auto
  moreover have "p / 2 ^ 53 \<le> p / 2 ^ 50" using \<open>0 < p\<close> by (intro divide_left_mono) simp_all
  ultimately have "\<bar>f - p\<bar> \<le> p / 2 ^ 50" by linarith
  then show "\<exists>f. mathPow e s y = Fin f \<and> \<bar>f - s powr y\<bar> \<le> s powr y / 2 ^ 50"
    using f by (simp add: assms(1) p_def)
qed

lemma ex_pow_accurate: "pow_accurate ex_env (1 / 16)"
proof (rule rnd_powr_accurate)
  show "mathPow ex_env = (\<lambda>x y. rnd (x powr y))" by (simp add: ex_env_def)
  have "(2::real) powr (- 1022) \<le> 2 powr (- 4)" by (rule powr_mono) simp_all
  also have "\<dots> = 1 / 2 powr 4" by (rule powr_minus_divide)
  finally show "(2::real) powr (- 1022) \<le> 1 / 16" by simp
qed simp

text \<open>Two quotients of line 126, evaluated.\<close>

lemma quotient_sixteenth:
  "js_div (js_div (Fin 1) (Fin (1 / 16))) SCALE_FACTOR = Fin (6497320848556798 / 2 ^ 48)"
proof -
  have "rnd (16 / (6243314768165359 / 2 ^ 53))
          = Fin (of_int 6497320848556798 * 2 powr of_int (4 - 52))"
    by (rule rnd_near) (simp_all add: powr_minus_divide)
  then show ?thesis
    by (simp add: SCALE_FACTOR_def rnd_numeral powr_minus_divide)
qed

lemma quotient_ex_scale:
  "js_div (Fin 1) (Fin ex_scale) = Fin (6243314768165359 / 2 ^ 52)"
  "js_div (js_div (Fin 1) (Fin ex_scale)) SCALE_FACTOR = Fin 2"
proof -
  have "rnd (1 / (3248660424278399 / 2 ^ 52))
          = Fin (of_int 6243314768165359 * 2 powr of_int (0 - 52))"
    by (rule rnd_near) (simp_all add: powr_minus_divide)
  then show a: "js_div (Fin 1) (Fin ex_scale) = Fin (6243314768165359 / 2 ^ 52)"
    by (simp add: ex_scale_def powr_minus_divide)
  show "js_div (js_div (Fin 1) (Fin ex_scale)) SCALE_FACTOR = Fin 2"
    unfolding a by (simp add: SCALE_FACTOR_def rnd_numeral)
qed

text \<open>
  C6, as the code has it. For every target scale strictly between 0 and 1, \<open>steps\<close> is a
  whole number from 2 to 4: it is \<open>min 4 \<lceil>q\<rceil>\<close> for the binary64 quotient \<open>q\<close> of line
  126, which is within a relative \<open>2 ^ - 50\<close> of the real \<open>(1 / scale) / ln 2\<close>, and it
  is 4 when the quotient overflows (then the real quotient is above 4 as well).
  \<open>factor\<close> is what \<^verbatim>\<open>Math.pow\<close> gives for the scale and the binary64 \<^verbatim>\<open>1 / steps\<close>;
  with a \<^verbatim>\<open>Math.pow\<close> that is accurate to a relative \<open>2 ^ - 50\<close> it is a finite number
  whose \<open>steps\<close>-fold product is within \<open>1e-6\<close> of the scale. For the scale \<^verbatim>\<open>0.1\<close> the
  step count is 4.
\<close>

theorem steps_and_factor:
  assumes "0 < s" "s < 1" "pow_accurate e s"
  shows "\<exists>n r f. drawImage_steps (Fin s) = Fin (of_nat n) \<and> 2 \<le> n \<and> n \<le> 4
           \<and> (case js_div (js_div (Fin 1) (Fin s)) SCALE_FACTOR of
                Fin q \<Rightarrow> int n = min 4 \<lceil>q\<rceil>
                          \<and> \<bar>q - (1 / s) / ln 2\<bar> \<le> ((1 / s) / ln 2) / 2 ^ 50
              | v \<Rightarrow> v = PosInf \<and> n = 4 \<and> 4 \<le> (1 / s) / ln 2)
           \<and> js_div (Fin 1) (Fin (of_nat n)) = Fin r \<and> mathPow e s r = Fin f
           \<and> drawImage_factor e (Fin s) = Fin f \<and> \<bar>f ^ n - s\<bar> \<le> 1 / 10 ^ 6
           \<and> drawImage_steps (js_div (Fin 1) (Fin 10)) = Fin 4"
proof -
  obtain n where n: "drawImage_steps (Fin s) = Fin (of_nat n)" "2 \<le> n" "n \<le> 4"
    using steps_nat [OF assms(1,2)] by blast
  obtain r f where f: "js_div (Fin 1) (Fin (of_nat n)) = Fin r" "mathPow e s r = Fin f"
      "drawImage_factor e (Fin s) = Fin f" "\<bar>f ^ n - s\<bar> \<le> 1 / 10 ^ 6"
    using factor_error [OF assms n] by blast
  have quo: "case js_div (js_div (Fin 1) (Fin s)) SCALE_FACTOR of
                Fin q \<Rightarrow> int n = min 4 \<lceil>q\<rceil>
                          \<and> \<bar>q - (1 / s) / ln 2\<bar> \<le> ((1 / s) / ln 2) / 2 ^ 50
              | v \<Rightarrow> v = PosInf \<and> n = 4 \<and> 4 \<le> (1 / s) / ln 2"
  proof -
    from quotient_cases [OF assms(1,2)]
    consider "js_div (js_div (Fin 1) (Fin s)) SCALE_FACTOR = PosInf"
      | q where "js_div (js_div (Fin 1) (Fin s)) SCALE_FACTOR = Fin q"
      by blast
    then show ?thesis
    proof cases
      case 1
      then have "drawImage_steps (Fin s) = Fin 4" by (rule steps_of_quotient)
      then have "n = 4" using n(1) by simp
      then show ?thesis using 1 quotient_overflow [OF assms(1,2) 1] by simp
    next
      case 2
      then have "drawImage_steps (Fin s) = Fin (of_int (min 4 \<lceil>q\<rceil>))"
        by (rule steps_of_quotient)
      then have "(of_nat n :: real) = of_int (min 4 \<lceil>q\<rceil>)" using n(1) by simp
      then have "(of_int (int n) :: real) = of_int (min 4 \<lceil>q\<rceil>)" by simp
      then have "int n = min 4 \<lceil>q\<rceil>" by (simp only: of_int_eq_iff)
      then show ?thesis using 2 quotient_error [OF assms(1,2) 2] by simp
    qed
  qed
  show ?thesis
    apply (rule exI [of _ n], rule exI [of _ r], rule exI [of _ f])
    using n f quo steps_tenth by simp
qed

theorem steps_and_factor_witness:
  "(0::real) < 1 / 16 \<and> (1::real) / 16 < 1 \<and> pow_accurate ex_env (1 / 16)
   \<and> drawImage_steps (Fin (1 / 16)) = Fin (of_nat 4)
   \<and> js_div (js_div (Fin 1) (Fin (1 / 16))) SCALE_FACTOR = Fin (6497320848556798 / 2 ^ 48)
   \<and> int 4 = min 4 \<lceil>6497320848556798 / 2 ^ 48 :: real\<rceil>
   \<and> \<bar>6497320848556798 / 2 ^ 48 - (1 / (1 / 16)) / ln (2::real)\<bar>
        \<le> ((1 / (1 / 16)) / ln 2) / 2 ^ 50
   \<and> js_div (Fin 1) (Fin (of_nat 4)) = Fin (1 / 4)
   \<and> mathPow ex_env (1 / 16) (1 / 4) = Fin (1 / 2)
   \<and> drawImage_factor ex_env (Fin (1 / 16)) = Fin (1 / 2)
   \<and> \<bar>(1 / 2 :: real) ^ 4 - 1 / 16\<bar> \<le> 1 / 10 ^ 6
   \<and> drawImage_steps (js_div (Fin 1) (Fin 10)) = Fin 4"
proof -
  have h: "(0::real) < 1 / 16" "(1::real) / 16 < 1" "pow_accurate ex_env (1 / 16)"
    using ex_pow_accurate by simp_all
  from steps_and_factor [OF h] obtain n r f where
    n: "drawImage_steps (Fin (1 / 16)) = Fin (of_nat n)"
    and quo: "case js_div (js_div (Fin 1) (Fin (1 / 16))) SCALE_FACTOR of
                Fin q \<Rightarrow> int n = min 4 \<lceil>q\<rceil>
                          \<and> \<bar>q - (1 / (1 / 16)) / ln 2\<bar> \<le> ((1 / (1 / 16)) / ln 2) / 2 ^ 50
              | v \<Rightarrow> v = PosInf \<and> n = 4 \<and> 4 \<le> (1 / (1 / 16)) / ln (2::real)"
    and r: "js_div (Fin 1) (Fin (of_nat n)) = Fin r" "mathPow ex_env (1 / 16) r = Fin f"
    and f: "drawImage_factor ex_env (Fin (1 / 16)) = Fin f" "\<bar>f ^ n - 1 / 16\<bar> \<le> 1 / 10 ^ 6"
    and tenth: "drawImage_steps (js_div (Fin 1) (Fin 10)) = Fin 4"
    by blast
  have n4: "n = 4" using n steps_sixteenth by simp
  have f2: "f = 1 / 2" using f(1) factor_sixteenth [OF ex_pow(1)] by simp
  have r4: "r = 1 / 4" using r(1) unfolding n4 by (simp add: rnd_fractions)
  have q: "int 4 = min 4 \<lceil>6497320848556798 / 2 ^ 48 :: real\<rceil>"
      "\<bar>6497320848556798 / 2 ^ 48 - (1 / (1 / 16)) / ln (2::real)\<bar>
         \<le> ((1 / (1 / 16)) / ln 2) / 2 ^ 50"
    using quo unfolding quotient_sixteenth n4 by simp_all
  show ?thesis
    using h n r f q tenth quotient_sixteenth unfolding n4 f2 r4 by simp
qed

text \<open>
  C6 as stated fails: the step count is not always \<open>min 4 \<lceil>(1 / scale) / ln 2\<rceil>\<close> of
  the real quotient. At the binary64 scale \<^verbatim>\<open>0.7213475204444817\<close> the real quotient is
  just above 2, so the formula gives 3, but \<^verbatim>\<open>1 / scale\<close> rounds to twice
  \<^verbatim>\<open>Math.log(2)\<close>, the quotient of line 126 is exactly 2, and the code takes 2 steps.
\<close>

theorem steps_differ_from_real_formula:
  "0 < ex_scale \<and> ex_scale < 1
   \<and> drawImage_steps (Fin ex_scale) = Fin 2
   \<and> min 4 \<lceil>(1 / ex_scale) / ln 2\<rceil> = 3"
proof -
  have steps: "drawImage_steps (Fin ex_scale) = Fin 2"
    using steps_of_quotient(1) [OF quotient_ex_scale(2)] by simp
  have inv: "1 / ex_scale = 2 * (2 ^ 51 / 3248660424278399)" by (simp add: ex_scale_def)
  have pos: "0 < ln (2::real)" by simp
  have "2 * ln 2 < 1 / ex_scale" using ln2_upper unfolding inv by simp
  then have lo: "2 < (1 / ex_scale) / ln 2" using pos by (simp only: pos_less_divide_eq)
  have "1 / ex_scale \<le> 3 * (6243314768165359 / 2 ^ 53)" by (simp add: ex_scale_def)
  also have "\<dots> \<le> 3 * ln 2" using ln2_lower by simp
  finally have hi: "(1 / ex_scale) / ln 2 \<le> 3" using pos by (simp only: pos_divide_le_eq)
  have "\<lceil>(1 / ex_scale) / ln 2\<rceil> = 3"
    by (rule ceiling_unique) (use lo hi in simp_all)
  then show ?thesis using steps by (simp add: ex_scale_def)
qed


end
